theory Spec2Isabelle
  imports Main
begin

section \<open>Data model\<close>

text \<open>
  The development embeds the module \<^verbatim>\<open>codehash/__init__.py\<close>. Python objects are values of
  the datatype \<open>pyval\<close>; a function object is referred to by its identity (\<open>fid\<close>), because
  function objects may refer to each other, and to themselves, through closure cells and
  module globals. Floating-point numbers are left out of the value type.
\<close>

type_synonym Hash = string

type_synonym fid = nat

record pymodule =
  m_name :: string
  m_file :: "string option"
  m_version :: "string option"

text \<open>
  \<open>m_file\<close> is the attribute \<^verbatim>\<open>__file__\<close>: built-in modules such as \<^verbatim>\<open>sys\<close> have none.
  \<open>m_version\<close> is \<^verbatim>\<open>getattr(mod, '__version__', None)\<close>.

  \<open>VObj i c\<close> is any object that is not a scalar, a list, a tuple, a dict, a module, a
  class or a Python function: \<open>i\<close> is its identity, and \<open>c\<close> says whether it has an attribute
  \<^verbatim>\<open>__codehash__\<close> (\<open>None\<close>: it has not) and what the call \<^verbatim>\<open>o.__codehash__()\<close> returns
  (\<open>Some None\<close>: it returns \<^verbatim>\<open>None\<close>). \<open>VHashed h\<close> is an instance of the class
  \<^verbatim>\<open>Hashed\<close> of the module. A dict is the list of its items in insertion order.
\<close>

datatype pyval =
    VNone
  | VStr string
  | VBytes string
  | VInt int
  | VBool bool
  | VList "pyval list"
  | VTuple "pyval list"
  | VDict "(pyval \<times> pyval) list"
  | VModule pymodule
  | VClass string string
  | VFunc fid
  | VObj nat "Hash option option"
  | VHashed Hash

datatype cherr =
    Bare
  | Unknown pyval
  | CannotHash fid string pyval

text \<open>
  The exceptions that the code raises, or that the operations it uses raise. The three
  payloads of \<open>CodehashError\<close> are the three \<^verbatim>\<open>raise\<close> statements of the module:
  \<^verbatim>\<open>CodehashError()\<close>, \<^verbatim>\<open>CodehashError(f'Unknown object: {o!r}')\<close> and
  \<^verbatim>\<open>CodehashError(f'In {func} cannot hash global {name} = {obj!r}')\<close>.
\<close>

datatype error =
    CodehashError cherr
  | AssertionError
  | KeyError
  | AttributeError
  | TypeError
  | IndexError
  | SyntaxError
  | OSError

text \<open>
  A syntax tree as \<^verbatim>\<open>ast.dump\<close> sees it: a node with its class name and its fields in
  order, a list-valued field, or a field that holds a plain value.
\<close>

datatype ast =
    Node string "ast list"
  | Lst "ast list"
  | Atom pyval

text \<open>
  A code object: \<^verbatim>\<open>co_names\<close>, \<^verbatim>\<open>co_freevars\<close>, and those elements of \<^verbatim>\<open>co_consts\<close>
  that are code objects themselves, in their order.
\<close>

datatype code = Code (co_names: "string list") (co_freevars: "string list") (co_consts: "code list")

text \<open>
  A function object. \<open>fn_source\<close> is \<^verbatim>\<open>dedent(inspect.getsource(func))\<close>, or \<open>None\<close> when
  \<^verbatim>\<open>inspect.getsource\<close> raises; \<open>fn_closure\<close> holds the contents of the cells of
  \<^verbatim>\<open>__closure__\<close>; \<open>fn_builtins\<close> is the namespace that \<^verbatim>\<open>__globals__['__builtins__']\<close>
  denotes.
\<close>

record func =
  fn_module :: string
  fn_qualname :: string
  fn_source :: "string option"
  fn_code :: code
  fn_closure :: "pyval list"
  fn_globals :: "string \<rightharpoonup> pyval"
  fn_builtins :: "string \<rightharpoonup> pyval"

text \<open>
  What the code reads from the running interpreter: the registry \<^verbatim>\<open>sys.modules\<close>, the
  function objects, and the constant \<^verbatim>\<open>STDLIB_PATHS\<close> computed when the module is loaded.
\<close>

record env =
  sys_modules :: "string \<rightharpoonup> pymodule"
  function_objects :: "fid \<Rightarrow> func"
  STDLIB_PATHS :: "string list"

text \<open>
  The primitives of the language and of its library that the code calls and that are not
  part of the module: the SHA-1 hex digest of a text, \<^verbatim>\<open>ast.parse\<close> (\<open>None\<close> when it raises),
  and \<^verbatim>\<open>repr\<close> of a string, of a byte string and of an object that has no \<^verbatim>\<open>__repr__\<close> of
  its own.
\<close>

record host =
  sha1_hexdigest :: "string \<Rightarrow> string"
  parse :: "string \<Rightarrow> ast option"
  repr_str :: "string \<Rightarrow> string"
  repr_bytes :: "string \<Rightarrow> string"
  repr_object :: "pyval \<Rightarrow> string"

type_synonym HashHook = "pyval \<Rightarrow> Hash option"

type_synonym cache = "fid \<rightharpoonup> Hash"

section \<open>Strings, dicts and comparison of the language\<close>

fun join :: "string \<Rightarrow> string list \<Rightarrow> string" where
  "join sep [] = []"
| "join sep [x] = x"
| "join sep (x # y # ys) = x @ sep @ join sep (y # ys)"

text \<open>\<^verbatim>\<open>s.split(c)\<close> for a separator of one character: never the empty list.\<close>

fun split :: "char \<Rightarrow> string \<Rightarrow> string list" where
  "split c [] = [[]]"
| "split c (x # xs) =
     (if x = c then [] # split c xs
      else (case split c xs of [] \<Rightarrow> [[x]] | w # ws \<Rightarrow> (x # w) # ws))"

definition startswith :: "string \<Rightarrow> string \<Rightarrow> bool" where
  "startswith s p = (take (length p) s = p)"

text \<open>\<^verbatim>\<open>d[k] = v\<close> on a dict kept as the list of its items in insertion order.\<close>

fun dict_set :: "('k \<times> 'v) list \<Rightarrow> 'k \<Rightarrow> 'v \<Rightarrow> ('k \<times> 'v) list" where
  "dict_set [] k v = [(k, v)]"
| "dict_set ((k', v') # d) k v =
     (if k' = k then (k, v) # d else (k', v') # dict_set d k v)"

fun digit_char :: "nat \<Rightarrow> char" where
  "digit_char n = char_of (48 + n)"

fun repr_nat :: "nat \<Rightarrow> string" where
  "repr_nat n = (if n < 10 then [digit_char n] else repr_nat (n div 10) @ [digit_char (n mod 10)])"

declare repr_nat.simps [simp del]

definition repr_int :: "int \<Rightarrow> string" where
  "repr_int i = (if i < 0 then CHR ''-'' # repr_nat (nat (- i)) else repr_nat (nat i))"

text \<open>
  The comparison \<^verbatim>\<open>a < b\<close> that \<^verbatim>\<open>sorted\<close> uses, on the values that can be keys of a dict:
  numbers by value, strings and byte strings by code point, tuples by the first place
  where they differ; \<open>None\<close> is the \<^verbatim>\<open>TypeError\<close> of an unsupported comparison.
\<close>

fun py_num :: "pyval \<Rightarrow> int option" where
  "py_num (VInt i) = Some i"
| "py_num (VBool b) = Some (if b then 1 else 0)"
| "py_num _ = None"

fun str_less :: "string \<Rightarrow> string \<Rightarrow> bool" where
  "str_less [] [] = False"
| "str_less [] (y # ys) = True"
| "str_less (x # xs) [] = False"
| "str_less (x # xs) (y # ys) =
     (if x = y then str_less xs ys else (of_char x :: nat) < of_char y)"

fun py_eq :: "pyval \<Rightarrow> pyval \<Rightarrow> bool"
  and py_eq_list :: "pyval list \<Rightarrow> pyval list \<Rightarrow> bool" where
  "py_eq a b =
     (case (py_num a, py_num b) of
        (Some x, Some y) \<Rightarrow> x = y
      | _ \<Rightarrow> (case (a, b) of
                (VTuple xs, VTuple ys) \<Rightarrow> py_eq_list xs ys
              | _ \<Rightarrow> a = b))"
| "py_eq_list [] [] = True"
| "py_eq_list (x # xs) (y # ys) = (py_eq x y \<and> py_eq_list xs ys)"
| "py_eq_list _ _ = False"

fun py_less :: "pyval \<Rightarrow> pyval \<Rightarrow> bool option"
  and py_less_list :: "pyval list \<Rightarrow> pyval list \<Rightarrow> bool option" where
  "py_less a b =
     (case (py_num a, py_num b) of
        (Some x, Some y) \<Rightarrow> Some (x < y)
      | _ \<Rightarrow> (case (a, b) of
                (VStr s, VStr t) \<Rightarrow> Some (str_less s t)
              | (VBytes s, VBytes t) \<Rightarrow> Some (str_less s t)
              | (VTuple xs, VTuple ys) \<Rightarrow> py_less_list xs ys
              | _ \<Rightarrow> None))"
| "py_less_list [] [] = Some False"
| "py_less_list [] (y # ys) = Some True"
| "py_less_list (x # xs) [] = Some False"
| "py_less_list (x # xs) (y # ys) =
     (if py_eq x y then py_less_list xs ys else py_less x y)"

declare py_eq.simps(1) [simp del] py_less.simps(1) [simp del]

text \<open>
  \<^verbatim>\<open>sorted(xs)\<close>: each element is put into the sorted part before the first element that
  it is less than, so elements that do not compare less keep their order. The first
  unsupported comparison raises.
\<close>

fun insert_sorted :: "pyval \<Rightarrow> pyval list \<Rightarrow> error + pyval list" where
  "insert_sorted x [] = Inr [x]"
| "insert_sorted x (y # ys) =
     (case py_less x y of
        None \<Rightarrow> Inl TypeError
      | Some True \<Rightarrow> Inr (x # y # ys)
      | Some False \<Rightarrow> (case insert_sorted x ys of Inl e \<Rightarrow> Inl e | Inr zs \<Rightarrow> Inr (y # zs)))"

fun sorted_into :: "pyval list \<Rightarrow> pyval list \<Rightarrow> error + pyval list" where
  "sorted_into acc [] = Inr acc"
| "sorted_into acc (x # xs) =
     (case insert_sorted x acc of Inl e \<Rightarrow> Inl e | Inr acc' \<Rightarrow> sorted_into acc' xs)"

definition sorted_py :: "pyval list \<Rightarrow> error + pyval list" where
  "sorted_py xs = sorted_into [] xs"

section \<open>Canonical value serializer\<close>

text \<open>
  A loop whose body may raise, over a list: the first exception ends it.
\<close>

fun map_raise :: "('a \<Rightarrow> error + 'b) \<Rightarrow> 'a list \<Rightarrow> error + 'b list" where
  "map_raise f [] = Inr []"
| "map_raise f (x # xs) =
     (case f x of
        Inl e \<Rightarrow> Inl e
      | Inr y \<Rightarrow> (case map_raise f xs of Inl e \<Rightarrow> Inl e | Inr ys \<Rightarrow> Inr (y # ys)))"

lemma map_raise_cong [fundef_cong]:
  "xs = ys \<Longrightarrow> (\<And>x. x \<in> set ys \<Longrightarrow> f x = g x) \<Longrightarrow> map_raise f xs = map_raise g ys"
  by (induction ys arbitrary: xs) (auto split: sum.splits)

text \<open>
  \<^verbatim>\<open>repr\<close> of a value. Lists, tuples and dicts print their elements with \<^verbatim>\<open>repr\<close>; a tuple
  of one element has a trailing comma.
\<close>

fun repr :: "host \<Rightarrow> pyval \<Rightarrow> string" where
  "repr h VNone = ''None''"
| "repr h (VStr s) = repr_str h s"
| "repr h (VBytes s) = repr_bytes h s"
| "repr h (VInt i) = repr_int i"
| "repr h (VBool b) = (if b then ''True'' else ''False'')"
| "repr h (VList xs) = ''['' @ join '', '' (map (repr h) xs) @ '']''"
| "repr h (VTuple xs) =
     (case xs of
        [x] \<Rightarrow> ''('' @ repr h x @ '',)''
      | _ \<Rightarrow> ''('' @ join '', '' (map (repr h) xs) @ '')'')"
| "repr h (VDict kvs) =
     ''{'' @ join '', '' (map (\<lambda>(k, v). repr h k @ '': '' @ repr h v) kvs) @ ''}''"
| "repr h (VHashed x) = ''Hashed('' @ repr_str h x @ '')''"
| "repr h v = repr_object h v"

definition hash_text :: "host \<Rightarrow> string \<Rightarrow> Hash" where
  "hash_text h text = sha1_hexdigest h text"

text \<open>
  \<^verbatim>\<open>deep_transform\<close>. The keys of a dict are sorted and are not transformed themselves;
  \<^verbatim>\<open>obj[k]\<close> is the lookup in the items.
\<close>

lemma size_map_of:
  "map_of kvs k = Some v \<Longrightarrow> size v < Suc (size_list (size_prod size size) kvs)"
  by (induction kvs) (auto split: if_splits)

function (sequential) deep_transform :: "pyval \<Rightarrow> (pyval \<Rightarrow> error + pyval) \<Rightarrow> error + pyval" where
  "deep_transform VNone transform = Inr VNone"
| "deep_transform (VStr s) transform = Inr (VStr s)"
| "deep_transform (VBytes s) transform = Inr (VBytes s)"
| "deep_transform (VInt i) transform = Inr (VInt i)"
| "deep_transform (VBool b) transform = Inr (VBool b)"
| "deep_transform (VList xs) transform =
     (case map_raise (\<lambda>x. deep_transform x transform) xs of
        Inl e \<Rightarrow> Inl e
      | Inr ys \<Rightarrow> Inr (VList ys))"
| "deep_transform (VTuple xs) transform =
     (case map_raise (\<lambda>x. deep_transform x transform) xs of
        Inl e \<Rightarrow> Inl e
      | Inr ys \<Rightarrow> Inr (VTuple ys))"
| "deep_transform (VDict kvs) transform =
     (case sorted_py (map fst kvs) of
        Inl e \<Rightarrow> Inl e
      | Inr ks \<Rightarrow>
          (case map_raise
                  (\<lambda>k. case map_of kvs k of
                         None \<Rightarrow> Inl KeyError
                       | Some v \<Rightarrow> (case deep_transform v transform of
                                      Inl e \<Rightarrow> Inl e
                                    | Inr w \<Rightarrow> Inr (k, w))) ks of
             Inl e \<Rightarrow> Inl e
           | Inr kws \<Rightarrow> Inr (VDict kws)))"
| "deep_transform obj transform = transform obj"
  by pat_completeness auto
termination
proof (relation "measure (\<lambda>(obj, transform). size obj)")
  show "wf (measure (\<lambda>(obj, transform). size obj))"
    by simp
next
  fix xs :: "pyval list" and transform :: "pyval \<Rightarrow> error + pyval" and x
  assume "x \<in> set xs"
  then have "size x < Suc (size_list size xs)"
    by (induction xs) auto
  then show "((x, transform), (VList xs, transform)) \<in> measure (\<lambda>(obj, transform). size obj)"
    by simp
  from \<open>size x < Suc (size_list size xs)\<close>
  show "((x, transform), (VTuple xs, transform)) \<in> measure (\<lambda>(obj, transform). size obj)"
    by simp
next
  fix kvs :: "(pyval \<times> pyval) list" and transform :: "pyval \<Rightarrow> error + pyval" and ks k v
  assume "map_of kvs k = Some v"
  then show "((v, transform), (VDict kvs, transform)) \<in> measure (\<lambda>(obj, transform). size obj)"
    by (simp add: size_map_of)
qed

text \<open>
  \<^verbatim>\<open>hasattr(o, '__codehash__')\<close> and the result of the call: modules, classes and
  functions are taken to have no such attribute.
\<close>

fun codehash_attr :: "pyval \<Rightarrow> Hash option option" where
  "codehash_attr (VObj i c) = c"
| "codehash_attr _ = None"

definition transform :: "HashHook \<Rightarrow> pyval \<Rightarrow> error + pyval" where
  "transform hook ob =
     (let hashid = (case codehash_attr ob of Some r \<Rightarrow> r | None \<Rightarrow> hook ob)
      in case hashid of
           None \<Rightarrow> Inl (CodehashError (Unknown ob))
         | Some x \<Rightarrow> Inr (VHashed x))"

definition repr_hashable :: "host \<Rightarrow> pyval \<Rightarrow> HashHook option \<Rightarrow> error + string" where
  "repr_hashable h obj hook =
     (let hook' = (case hook of None \<Rightarrow> (\<lambda>ob. None) | Some k \<Rightarrow> k)
      in case deep_transform obj (transform hook') of
           Inl e \<Rightarrow> Inl e
         | Inr t \<Rightarrow> Inr (repr h t))"

section \<open>Structural code normalizer\<close>

text \<open>
  \<^verbatim>\<open>dropwhile(lambda l: l[0] == '@', lines)\<close>: \<^verbatim>\<open>l[0]\<close> raises on an empty line.
\<close>

fun drop_decorators :: "string list \<Rightarrow> error + string list" where
  "drop_decorators [] = Inr []"
| "drop_decorators (l # ls) =
     (case l of
        [] \<Rightarrow> Inl IndexError
      | c # cs \<Rightarrow> if c = CHR ''@'' then drop_decorators ls else Inr (l # ls))"

text \<open>
  The place of the field \<^verbatim>\<open>body\<close> among the fields of the four classes that
  \<^verbatim>\<open>remove_docstring\<close> looks at, and of the field \<^verbatim>\<open>value\<close> of an \<^verbatim>\<open>Expr\<close>.
\<close>

definition body_index :: "string \<Rightarrow> nat option" where
  "body_index c =
     (if c = ''AsyncFunctionDef'' \<or> c = ''FunctionDef'' then Some 2
      else if c = ''ClassDef'' then Some 3
      else if c = ''Module'' then Some 0
      else None)"

fun body :: "ast \<Rightarrow> ast list option" where
  "body (Node c fs) =
     (case body_index c of
        None \<Rightarrow> None
      | Some i \<Rightarrow> if i < length fs then (case fs ! i of Lst b \<Rightarrow> Some b | _ \<Rightarrow> None) else None)"
| "body _ = None"

fun is_docstring :: "ast \<Rightarrow> bool" where
  "is_docstring (Node c fs) =
     (c = ''Expr'' \<and> (case fs of Node d gs # _ \<Rightarrow> d = ''Str'' | _ \<Rightarrow> False))"
| "is_docstring _ = False"

fun remove_docstring :: "ast \<Rightarrow> ast" where
  "remove_docstring (Node c fs) =
     (case body_index c of
        None \<Rightarrow> Node c fs
      | Some i \<Rightarrow>
          (case body (Node c fs) of
             Some (stmt # rest) \<Rightarrow> if is_docstring stmt then Node c (fs[i := Lst rest]) else Node c fs
           | _ \<Rightarrow> Node c fs))"
| "remove_docstring node = node"

text \<open>
  \<^verbatim>\<open>for node in ast.walk(module): remove_docstring(node)\<close>. The walk hands out every node
  of the tree once, and has put the children of a node into its queue before the node is
  handed out; \<^verbatim>\<open>remove_docstring\<close> changes nothing but the body of the node it is given.
  So the loop applies \<^verbatim>\<open>remove_docstring\<close> at every node, and the order does not matter.
\<close>

fun remove_docstrings :: "ast \<Rightarrow> ast" where
  "remove_docstrings (Node c fs) = remove_docstring (Node c (map remove_docstrings fs))"
| "remove_docstrings (Lst xs) = Lst (map remove_docstrings xs)"
| "remove_docstrings (Atom v) = Atom v"

text \<open>\<^verbatim>\<open>ast.dump(node, annotate_fields=False)\<close>.\<close>

fun dump :: "host \<Rightarrow> ast \<Rightarrow> string" where
  "dump h (Node c fs) = c @ ''('' @ join '', '' (map (dump h) fs) @ '')''"
| "dump h (Lst xs) = ''['' @ join '', '' (map (dump h) xs) @ '']''"
| "dump h (Atom v) = repr h v"

fun set_name :: "ast \<Rightarrow> string \<Rightarrow> ast" where
  "set_name (Node c fs) n = Node c (fs[0 := Atom (VStr n)])"
| "set_name node n = node"

fun is_function_def :: "ast \<Rightarrow> bool" where
  "is_function_def (Node c fs) = (c = ''AsyncFunctionDef'' \<or> c = ''FunctionDef'')"
| "is_function_def _ = False"

definition ast_code_of :: "host \<Rightarrow> env \<Rightarrow> fid \<Rightarrow> error + string" where
  "ast_code_of h e func =
     (case fn_source (function_objects e func) of
        None \<Rightarrow> Inl OSError
      | Some src \<Rightarrow>
          (case drop_decorators (split CHR 0x0A src) of
             Inl err \<Rightarrow> Inl err
           | Inr lines \<Rightarrow>
               (case parse h (join [CHR 0x0A] lines) of
                  None \<Rightarrow> Inl SyntaxError
                | Some module \<Rightarrow>
                    (case body module of
                       None \<Rightarrow> Inl AttributeError
                     | Some stmts \<Rightarrow>
                         if length stmts \<noteq> 1 then Inl AssertionError
                         else if \<not> is_function_def (stmts ! 0) then Inl AssertionError
                         else (case body (remove_docstrings module) of
                                 Some (func_node # rest) \<Rightarrow> Inr (dump h (set_name func_node []))
                               | _ \<Rightarrow> Inl IndexError)))))"

section \<open>Closure and global resolver\<close>

record closure_vars =
  cv_nonlocals :: "(string \<times> pyval) list"
  cv_globals :: "(string \<times> pyval) list"
  cv_builtins :: "(string \<times> pyval) list"
  cv_unbound :: "string set"

text \<open>The body of \<^verbatim>\<open>for name in code.co_names\<close>.\<close>

definition resolve_name ::
  "(string \<rightharpoonup> pyval) \<Rightarrow> (string \<rightharpoonup> pyval) \<Rightarrow> string \<Rightarrow> closure_vars \<Rightarrow> closure_vars" where
  "resolve_name global_ns builtin_ns name cv =
     (case global_ns name of
        Some v \<Rightarrow> cv\<lparr>cv_globals := dict_set (cv_globals cv) name v\<rparr>
      | None \<Rightarrow>
          (case builtin_ns name of
             Some v \<Rightarrow> cv\<lparr>cv_builtins := dict_set (cv_builtins cv) name v\<rparr>
           | None \<Rightarrow> cv\<lparr>cv_unbound := insert name (cv_unbound cv)\<rparr>))"

lemma size_butlast_consts:
  "codes \<noteq> [] \<Longrightarrow>
   size_list size (butlast codes @ co_consts (last codes)) < size_list size codes"
proof (induction codes)
  case Nil
  then show ?case by simp
next
  case (Cons c cs)
  show ?case
  proof (cases "cs = []")
    case True
    then show ?thesis by (cases c) simp
  next
    case False
    with Cons.IH show ?thesis by simp
  qed
qed

text \<open>
  \<^verbatim>\<open>while codes: code = codes.pop(); ...\<close>: the stack is the list \<open>codes\<close>, its top the last
  element.
\<close>

function walk_codes ::
  "(string \<rightharpoonup> pyval) \<Rightarrow> (string \<rightharpoonup> pyval) \<Rightarrow> code list \<Rightarrow> closure_vars \<Rightarrow> closure_vars" where
  "walk_codes global_ns builtin_ns codes cv =
     (if codes = [] then cv
      else let code = last codes;
               codes' = butlast codes @ co_consts code
           in walk_codes global_ns builtin_ns codes'
                (fold (resolve_name global_ns builtin_ns) (co_names code) cv))"
  by pat_completeness auto
termination
  by (relation "measure (\<lambda>(global_ns, builtin_ns, codes, cv). size_list size codes)")
     (auto simp: size_butlast_consts simp del: size_list_append)

declare walk_codes.simps [simp del]

definition getclosurevars :: "env \<Rightarrow> fid \<Rightarrow> closure_vars" where
  "getclosurevars e func =
     (let f = function_objects e func;
          code = fn_code f;
          nonlocal_vars = fold (\<lambda>(name, v) d. dict_set d name v)
                            (zip (co_freevars code) (fn_closure f)) []
      in walk_codes (fn_globals f) (fn_builtins f) [code]
           \<lparr>cv_nonlocals = nonlocal_vars, cv_globals = [], cv_builtins = [],
            cv_unbound = {}\<rparr>)"

section \<open>Dependency classifier and hasher\<close>

definition fullname_of :: "string \<Rightarrow> string \<Rightarrow> string" where
  "fullname_of module qualname = module @ '':'' @ qualname"

text \<open>
  \<^verbatim>\<open>any(mod.__file__.startswith(p) for p in STDLIB_PATHS)\<close>: the attribute is read once
  for each path tried, and reading it raises when the module has no file.
\<close>

fun any_startswith :: "string option \<Rightarrow> string list \<Rightarrow> error + bool" where
  "any_startswith file [] = Inr False"
| "any_startswith file (p # ps) =
     (case file of
        None \<Rightarrow> Inl AttributeError
      | Some f \<Rightarrow> if startswith f p then Inr True else any_startswith file ps)"

definition is_stdlib :: "env \<Rightarrow> pymodule \<Rightarrow> error + bool" where
  "is_stdlib e modl = any_startswith (m_file modl) (STDLIB_PATHS e)"

text \<open>
  \<^verbatim>\<open>for n in range(len(parts), 0, -1)\<close> of \<^verbatim>\<open>version_of\<close>, with \<open>n\<close> the number of parts
  still to try. A version counts when it is not empty.
\<close>

fun version_loop :: "env \<Rightarrow> string list \<Rightarrow> nat \<Rightarrow> error + string option" where
  "version_loop e parts 0 = Inr None"
| "version_loop e parts (Suc n) =
     (case sys_modules e (join ''.'' (take (Suc n) parts)) of
        None \<Rightarrow> Inl KeyError
      | Some modl \<Rightarrow>
          (case m_version modl of
             None \<Rightarrow> version_loop e parts n
           | Some version \<Rightarrow> if version \<noteq> [] then Inr (Some version) else version_loop e parts n))"

definition version_of :: "env \<Rightarrow> pymodule \<Rightarrow> error + string option" where
  "version_of e modl =
     (let parts = split CHR ''.'' (m_name modl) in version_loop e parts (length parts))"

text \<open>
  The owning module and the full name of a module, a class or a function
  (\<^verbatim>\<open>sys.modules[obj.__module__]\<close> raises when the name is not registered); \<open>None\<close> for any
  other value.
\<close>

fun module_and_fullname :: "env \<Rightarrow> pyval \<Rightarrow> (error + pymodule \<times> string) option" where
  "module_and_fullname e (VModule m) = Some (Inr (m, m_name m))"
| "module_and_fullname e (VClass module qualname) =
     Some (case sys_modules e module of
             None \<Rightarrow> Inl KeyError
           | Some m \<Rightarrow> Inr (m, fullname_of module qualname))"
| "module_and_fullname e (VFunc g) =
     Some (let f = function_objects e g
           in case sys_modules e (fn_module f) of
                None \<Rightarrow> Inl KeyError
              | Some m \<Rightarrow> Inr (m, fullname_of (fn_module f) (fn_qualname f)))"
| "module_and_fullname e _ = None"

text \<open>
  The body of the \<^verbatim>\<open>try\<close> statement in the loop of \<^verbatim>\<open>hashed_globals_of\<close>, for one value.
  \<open>hash_function_rec\<close> stands for the call \<^verbatim>\<open>hash_function(obj)\<close>, which passes no hook;
  it takes the cache and gives the new one, and gives \<open>None\<close> when the call does not return.
\<close>

definition hash_global ::
  "(cache \<Rightarrow> fid \<Rightarrow> ((error + Hash) \<times> cache) option) \<Rightarrow> host \<Rightarrow> env \<Rightarrow> fid \<Rightarrow>
   HashHook option \<Rightarrow> pyval \<Rightarrow> cache \<Rightarrow> ((error + string) \<times> cache) option" where
  "hash_global hash_function_rec h e func hook obj c =
     (case module_and_fullname e obj of
        Some (Inl err) \<Rightarrow> Some (Inl err, c)
      | Some (Inr (modl, fullname)) \<Rightarrow>
          (case is_stdlib e modl of
             Inl err \<Rightarrow> Some (Inl err, c)
           | Inr True \<Rightarrow> Some (Inr (fullname @ ''(stdlib)''), c)
           | Inr False \<Rightarrow>
               (case version_of e modl of
                  Inl err \<Rightarrow> Some (Inl err, c)
                | Inr (Some version) \<Rightarrow> Some (Inr (fullname @ ''('' @ version @ '')''), c)
                | Inr None \<Rightarrow>
                    (case obj of
                       VFunc g \<Rightarrow>
                         if g \<noteq> func
                         then (case hash_function_rec c g of
                                 None \<Rightarrow> None
                               | Some (Inl err, c') \<Rightarrow> Some (Inl err, c')
                               | Some (Inr hashid, c') \<Rightarrow> Some (Inr (''function:'' @ hashid), c'))
                         else Some (Inr (''function:'' @ ''self''), c)
                     | _ \<Rightarrow> Some (Inl (CodehashError Bare), c))))
      | None \<Rightarrow>
          (case repr_hashable h obj hook of
             Inl err \<Rightarrow> Some (Inl err, c)
           | Inr text \<Rightarrow> Some (Inr (''composite:'' @ hash_text h text), c)))"

text \<open>\<^verbatim>\<open>except CodehashError: raise CodehashError(...)\<close>; any other exception passes.\<close>

fun reraise :: "fid \<Rightarrow> string \<Rightarrow> pyval \<Rightarrow> error \<Rightarrow> error" where
  "reraise func name obj (CodehashError x) = CodehashError (CannotHash func name obj)"
| "reraise func name obj err = err"

fun hashed_globals_loop ::
  "(cache \<Rightarrow> fid \<Rightarrow> ((error + Hash) \<times> cache) option) \<Rightarrow> host \<Rightarrow> env \<Rightarrow> fid \<Rightarrow>
   HashHook option \<Rightarrow> (string \<times> pyval) list \<Rightarrow> (string \<times> string) list \<Rightarrow> cache \<Rightarrow>
   ((error + (string \<times> string) list) \<times> cache) option" where
  "hashed_globals_loop hash_function_rec h e func hook [] hashed_globals c =
     Some (Inr hashed_globals, c)"
| "hashed_globals_loop hash_function_rec h e func hook ((name, obj) # items) hashed_globals c =
     (case hash_global hash_function_rec h e func hook obj c of
        None \<Rightarrow> None
      | Some (Inl err, c') \<Rightarrow> Some (Inl (reraise func name obj err), c')
      | Some (Inr token, c') \<Rightarrow>
          hashed_globals_loop hash_function_rec h e func hook items
            (dict_set hashed_globals name token) c')"

definition hashed_globals_of ::
  "(cache \<Rightarrow> fid \<Rightarrow> ((error + Hash) \<times> cache) option) \<Rightarrow> host \<Rightarrow> env \<Rightarrow> fid \<Rightarrow>
   HashHook option \<Rightarrow> cache \<Rightarrow> ((error + (string \<times> string) list) \<times> cache) option" where
  "hashed_globals_of hash_function_rec h e func hook c =
     (let closure_vars = getclosurevars e func
      in if cv_unbound closure_vars \<noteq> {} then Some (Inl AssertionError, c)
         else hashed_globals_loop hash_function_rec h e func hook
                (cv_nonlocals closure_vars @ cv_globals closure_vars) [] c)"

section \<open>Identity computation and its cache\<close>

text \<open>The dict \<^verbatim>\<open>{'ast_code': ast_code, 'globals': hashed_globals}\<close>.\<close>

definition spec_dict :: "string \<Rightarrow> (string \<times> string) list \<Rightarrow> pyval" where
  "spec_dict ast_code hashed_globals =
     VDict [(VStr ''ast_code'', VStr ast_code),
            (VStr ''globals'', VDict (map (\<lambda>(k, v). (VStr k, VStr v)) hashed_globals))]"

text \<open>
  \<^verbatim>\<open>hash_function\<close>. The first argument bounds the depth of the calls of \<^verbatim>\<open>hash_function\<close>
  inside each other; the result is \<open>None\<close> when that depth is not enough, so a call
  returns if and only if some depth gives a result. The cache \<^verbatim>\<open>_cache\<close> is passed in and
  returned.
\<close>

fun hash_function ::
  "nat \<Rightarrow> host \<Rightarrow> env \<Rightarrow> cache \<Rightarrow> fid \<Rightarrow> HashHook option \<Rightarrow> ((error + Hash) \<times> cache) option" where
  "hash_function 0 h e c func hook = None"
| "hash_function (Suc n) h e c func hook =
     (case c func of
        Some hashid \<Rightarrow> Some (Inr hashid, c)
      | None \<Rightarrow>
          (case ast_code_of h e func of
             Inl err \<Rightarrow> Some (Inl err, c)
           | Inr ast_code \<Rightarrow>
               (case hashed_globals_of (\<lambda>c' g. hash_function n h e c' g None) h e func hook c of
                  None \<Rightarrow> None
                | Some (Inl err, c') \<Rightarrow> Some (Inl err, c')
                | Some (Inr hashed_globals, c') \<Rightarrow>
                    (case repr_hashable h (spec_dict ast_code hashed_globals) None of
                       Inl err \<Rightarrow> Some (Inl err, c')
                     | Inr spec \<Rightarrow>
                         (case c' func of
                            Some hashid \<Rightarrow> Some (Inr hashid, c')
                          | None \<Rightarrow>
                              Some (Inr (hash_text h spec), c'(func \<mapsto> hash_text h spec)))))))"

section \<open>Notions used to state the properties\<close>

text \<open>
  The names that the code of a function reads: those of its own code object and of the
  code objects nested in it.
\<close>

fun code_names :: "code \<Rightarrow> string set" where
  "code_names (Code names freevars consts) = set names \<union> (\<Union>c \<in> set consts. code_names c)"

text \<open>The variable \<^verbatim>\<open>items\<close> of \<^verbatim>\<open>hashed_globals_of\<close>: the dependencies in the order of the loop.\<close>

definition items_of :: "env \<Rightarrow> fid \<Rightarrow> (string \<times> pyval) list" where
  "items_of e func =
     (let closure_vars = getclosurevars e func
      in cv_nonlocals closure_vars @ cv_globals closure_vars)"

text \<open>
  Dependency kind 3: a function whose module is registered, is not under a standard-library
  root and has no version anywhere along its dotted name.
\<close>

definition unversioned_function :: "env \<Rightarrow> fid \<Rightarrow> bool" where
  "unversioned_function e g =
     (case module_and_fullname e (VFunc g) of
        Some (Inr (modl, fullname)) \<Rightarrow>
          is_stdlib e modl = Inr False \<and> version_of e modl = Inr None
      | _ \<Rightarrow> False)"

fun is_str :: "pyval \<Rightarrow> bool" where
  "is_str (VStr s) = True"
| "is_str _ = False"

text \<open>The items of a dict of strings, as values.\<close>

definition str_items :: "(string \<times> string) list \<Rightarrow> (pyval \<times> pyval) list" where
  "str_items d = map (\<lambda>(k, v). (VStr k, VStr v)) d"

text \<open>
  The loop of \<^verbatim>\<open>hashed_globals_of\<close> for the function \<open>x\<close> calls \<^verbatim>\<open>hash_function\<close> for
  the function \<open>y\<close>: \<open>y\<close> is a dependency of \<open>x\<close> of kind 3 and is not \<open>x\<close> itself.
\<close>

definition calls :: "env \<Rightarrow> fid \<Rightarrow> fid \<Rightarrow> bool" where
  "calls e x y \<longleftrightarrow>
     y \<noteq> x \<and> unversioned_function e y \<and> (\<exists>name. (name, VFunc y) \<in> set (items_of e x))"

text \<open>
  A set of keys that \<^verbatim>\<open><\<close> orders totally: any two keys can be compared, of two
  different keys one is less than the other, no key is less than itself, and the
  comparison is transitive.
\<close>

definition mutually_comparable :: "pyval set \<Rightarrow> bool" where
  "mutually_comparable K \<longleftrightarrow>
     (\<forall>x \<in> K. \<forall>y \<in> K.
        (x = y \<longrightarrow> py_less x y = Some False) \<and>
        (x \<noteq> y \<longrightarrow> (py_less x y = Some True \<and> py_less y x = Some False)
                   \<or> (py_less x y = Some False \<and> py_less y x = Some True))) \<and>
     (\<forall>x \<in> K. \<forall>y \<in> K. \<forall>z \<in> K.
        py_less x y = Some True \<and> py_less y z = Some True \<longrightarrow> py_less x z = Some True)"

section \<open>Example programs\<close>

text \<open>
  Concrete functions, interpreter states and primitives, on which the theorems below are
  instantiated. The example parser knows the source texts of the examples only; the
  example digest is the identity function, which has no collisions.
\<close>

definition arguments0 :: ast where
  "arguments0 = Node ''arguments'' [Lst [], Atom VNone, Lst [], Lst [], Atom VNone, Lst []]"

definition FunctionDef :: "string \<Rightarrow> ast list \<Rightarrow> ast" where
  "FunctionDef name stmts =
     Node ''FunctionDef'' [Atom (VStr name), arguments0, Lst stmts, Lst [], Atom VNone]"

definition Module :: "ast list \<Rightarrow> ast" where
  "Module stmts = Node ''Module'' [Lst stmts]"

definition Name :: "string \<Rightarrow> ast" where
  "Name n = Node ''Name'' [Atom (VStr n), Node ''Load'' []]"

definition Call :: "string \<Rightarrow> ast" where
  "Call n = Node ''Call'' [Name n, Lst [], Lst []]"

definition Return :: "ast \<Rightarrow> ast" where
  "Return v = Node ''Return'' [v]"

definition Expr :: "ast \<Rightarrow> ast" where
  "Expr v = Node ''Expr'' [v]"

definition source :: "string list \<Rightarrow> string" where
  "source lines = concat (map (\<lambda>l. l @ [CHR 0x0A]) lines)"

definition src_unbound :: string where
  "src_unbound = source [''def f():'', ''    x'']"

definition src_sys :: string where
  "src_sys = source [''def f():'', ''    sys'']"

definition src_f_calls_g :: string where
  "src_f_calls_g = source [''def f():'', ''    return g()'']"

definition src_g_calls_f :: string where
  "src_g_calls_f = source [''def g():'', ''    return f()'']"

definition src_g_returns_c :: string where
  "src_g_returns_c = source [''def g():'', ''    return c'']"

definition src_deps :: string where
  "src_deps = source [''def f():'', ''    return o, os, int'']"

definition example_parse :: "string \<Rightarrow> ast option" where
  "example_parse s =
     (if s = src_unbound then Some (Module [FunctionDef ''f'' [Expr (Name ''x'')]])
      else if s = src_sys then Some (Module [FunctionDef ''f'' [Expr (Name ''sys'')]])
      else if s = src_f_calls_g then Some (Module [FunctionDef ''f'' [Return (Call ''g'')]])
      else if s = src_g_calls_f then Some (Module [FunctionDef ''g'' [Return (Call ''f'')]])
      else if s = src_g_returns_c then Some (Module [FunctionDef ''g'' [Return (Name ''c'')]])
      else if s = src_deps
      then Some (Module [FunctionDef ''f''
             [Return (Node ''Tuple'' [Lst [Name ''o'', Name ''os'', Name ''int''], Node ''Load'' []])]])
      else None)"

definition example_host :: host where
  "example_host =
     \<lparr>sha1_hexdigest = (\<lambda>s. s), parse = example_parse,
      repr_str = (\<lambda>s. [CHR 0x27] @ s @ [CHR 0x27]),
      repr_bytes = (\<lambda>s. CHR ''b'' # [CHR 0x27] @ s @ [CHR 0x27]),
      repr_object = (\<lambda>v. ''<object>'')\<rparr>"

definition plain_func :: "string \<Rightarrow> code \<Rightarrow> pyval list \<Rightarrow> (string \<rightharpoonup> pyval) \<Rightarrow> func" where
  "plain_func src code cells global_ns =
     \<lparr>fn_module = ''tests'', fn_qualname = ''f'', fn_source = Some src, fn_code = code,
      fn_closure = cells, fn_globals = global_ns,
      fn_builtins = [''int'' \<mapsto> VClass ''builtins'' ''int'']\<rparr>"

definition unbound_env :: env where
  "unbound_env =
     \<lparr>sys_modules = Map.empty,
      function_objects = (\<lambda>i. plain_func src_unbound (Code [''x''] [] []) [] Map.empty),
      STDLIB_PATHS = [''/usr/lib/python3.7'']\<rparr>"

definition tests_module :: pymodule where
  "tests_module = \<lparr>m_name = ''tests'', m_file = Some ''/home/user/tests.py'', m_version = None\<rparr>"

definition sys_module :: pymodule where
  "sys_module = \<lparr>m_name = ''sys'', m_file = None, m_version = None\<rparr>"

text \<open>A function that reads the global \<^verbatim>\<open>sys\<close>, bound to the built-in module.\<close>

definition sys_env :: env where
  "sys_env =
     \<lparr>sys_modules = [''tests'' \<mapsto> tests_module, ''sys'' \<mapsto> sys_module],
      function_objects =
        (\<lambda>i. plain_func src_sys (Code [''sys''] [] []) [] [''sys'' \<mapsto> VModule sys_module]),
      STDLIB_PATHS = [''/usr/lib/python3.7'']\<rparr>"

text \<open>
  Two functions of a module without version that call each other:
  \<^verbatim>\<open>def f(): return g()\<close> is function 0 and \<^verbatim>\<open>def g(): return f()\<close> is function 1.
\<close>

definition mutual_globals :: "string \<rightharpoonup> pyval" where
  "mutual_globals = [''f'' \<mapsto> VFunc 0, ''g'' \<mapsto> VFunc 1]"

definition mutual_env :: env where
  "mutual_env =
     \<lparr>sys_modules = [''tests'' \<mapsto> tests_module],
      function_objects =
        (\<lambda>i. if i = 0 then plain_func src_f_calls_g (Code [''g''] [] []) [] mutual_globals
             else plain_func src_g_calls_f (Code [''f''] [] []) [] mutual_globals),
      STDLIB_PATHS = [''/usr/lib/python3.7'']\<rparr>"

text \<open>
  \<^verbatim>\<open>def f(): return g()\<close> (function 0) and \<^verbatim>\<open>def g(): return c\<close> (function 1), where
  \<^verbatim>\<open>c\<close> is an instance of a plain class; and the hook \<^verbatim>\<open>lambda c: ''\<close>.
\<close>

definition hook_globals :: "string \<rightharpoonup> pyval" where
  "hook_globals = [''g'' \<mapsto> VFunc 1, ''c'' \<mapsto> VObj 7 None]"

definition hook_env :: env where
  "hook_env =
     \<lparr>sys_modules = [''tests'' \<mapsto> tests_module],
      function_objects =
        (\<lambda>i. if i = 0 then plain_func src_f_calls_g (Code [''g''] [] []) [] hook_globals
             else plain_func src_g_returns_c (Code [''c''] [] []) [] hook_globals),
      STDLIB_PATHS = [''/usr/lib/python3.7'']\<rparr>"

definition example_hook :: HashHook where
  "example_hook ob = Some []"

text \<open>
  \<^verbatim>\<open>def f(): return o, os, int\<close>, where \<^verbatim>\<open>o\<close> is a variable of the enclosing function,
  \<^verbatim>\<open>os\<close> the module of the standard library, imported in the module of \<^verbatim>\<open>f\<close>, and
  \<^verbatim>\<open>int\<close> a builtin. The value of \<^verbatim>\<open>o\<close> and the value that the builtins give to the name
  \<^verbatim>\<open>int\<close> are parameters.
\<close>

definition os_module :: pymodule where
  "os_module = \<lparr>m_name = ''os'', m_file = Some ''/usr/lib/python3.7/os.py'', m_version = None\<rparr>"

definition deps_env :: "pyval \<Rightarrow> pyval \<Rightarrow> env" where
  "deps_env ob b =
     \<lparr>sys_modules = [''tests'' \<mapsto> tests_module, ''os'' \<mapsto> os_module],
      function_objects =
        (\<lambda>i. (plain_func src_deps (Code [''os'', ''int''] [''o''] []) [ob]
                 [''os'' \<mapsto> VModule os_module])\<lparr>fn_builtins := [''int'' \<mapsto> b]\<rparr>),
      STDLIB_PATHS = [''/usr/lib/python3.7'']\<rparr>"

definition example_list :: pyval where
  "example_list = VList [VInt 1, VInt 2, VTuple [VInt 1, VInt 2]]"

text \<open>The dict of \<^verbatim>\<open>test_constant\<close>, before and after \<^verbatim>\<open>dct['a'] = 2\<close>.\<close>

definition dict_before :: pyval where
  "dict_before = VDict [(VStr ''a'', VInt 1)]"

definition dict_after :: pyval where
  "dict_after = VDict [(VStr ''a'', VInt 2)]"

definition builtin_int :: pyval where
  "builtin_int = VClass ''builtins'' ''int''"

text \<open>
  A function under a decorator that is written on three lines, as \<^verbatim>\<open>inspect.getsource\<close>
  returns it, and what is left of that text after the first line.
\<close>

definition src_decorated :: string where
  "src_decorated = source [''@decorator('', ''    1'', '')'', ''def g():'', ''    return 1'']"

definition src_decorated_rest :: string where
  "src_decorated_rest = source [''    1'', '')'', ''def g():'', ''    return 1'']"

definition decorated_env :: env where
  "decorated_env =
     \<lparr>sys_modules = [''tests'' \<mapsto> tests_module],
      function_objects = (\<lambda>i. plain_func src_decorated (Code [] [] []) [] Map.empty),
      STDLIB_PATHS = [''/usr/lib/python3.7'']\<rparr>"

section \<open>Evaluating the examples\<close>

lemmas example_defs = example_host_def example_parse_def source_def src_unbound_def src_sys_def
  src_f_calls_g_def src_g_calls_f_def src_g_returns_c_def src_deps_def os_module_def example_list_def src_decorated_def src_decorated_rest_def dict_before_def dict_after_def builtin_int_def Module_def FunctionDef_def Expr_def Return_def Call_def
  Name_def arguments0_def plain_func_def tests_module_def sys_module_def

lemmas code_defs = ast_code_of_def body_index_def getclosurevars_def hashed_globals_of_def
  hash_global_def is_stdlib_def version_of_def startswith_def fullname_of_def
  resolve_name_def walk_codes.simps items_of_def unversioned_function_def
  repr_hashable_def transform_def hash_text_def spec_dict_def sorted_py_def py_less.simps(1) py_eq.simps(1) repr_int_def repr_nat.simps

section \<open>The resolver\<close>

lemma walk_codes_Nil: "walk_codes g b [] cv = cv"
  by (subst walk_codes.simps) simp

lemma walk_codes_snoc:
  "walk_codes g b (cs @ [c]) cv =
     walk_codes g b (cs @ co_consts c) (fold (resolve_name g b) (co_names c) cv)"
  by (subst walk_codes.simps) simp

lemma fold_resolve_unbound:
  "cv_unbound (fold (resolve_name g b) names cv) =
     cv_unbound cv \<union> {n \<in> set names. g n = None \<and> b n = None}"
  by (induction names arbitrary: cv) (auto simp: resolve_name_def split: option.splits)

lemma code_names_last:
  "codes \<noteq> [] \<Longrightarrow>
   (\<Union>c \<in> set (butlast codes @ co_consts (last codes)). code_names c)
     \<union> set (co_names (last codes))
     = (\<Union>c \<in> set codes. code_names c)"
proof (induction codes rule: rev_induct)
  case Nil
  then show ?case by simp
next
  case (snoc c cs)
  show ?case by (cases c) auto
qed

lemma walk_codes_unbound:
  "cv_unbound (walk_codes g b codes cv) =
     cv_unbound cv \<union> {n \<in> (\<Union>c \<in> set codes. code_names c). g n = None \<and> b n = None}"
proof (induction g b codes cv rule: walk_codes.induct)
  case (1 g b codes cv)
  show ?case
  proof (cases "codes = []")
    case True
    then show ?thesis by (simp add: walk_codes_Nil)
  next
    case False
    from "1.IH" [OF False refl refl]
    have "cv_unbound (walk_codes g b codes cv) =
            cv_unbound (fold (resolve_name g b) (co_names (last codes)) cv) \<union>
            {n \<in> (\<Union>c \<in> set (butlast codes @ co_consts (last codes)). code_names c).
               g n = None \<and> b n = None}"
      using False by (simp add: walk_codes.simps [of g b codes cv] Let_def)
    also have "\<dots> = cv_unbound cv \<union>
         {n \<in> (\<Union>c \<in> set (butlast codes @ co_consts (last codes)). code_names c)
                 \<union> set (co_names (last codes)). g n = None \<and> b n = None}"
      unfolding fold_resolve_unbound by blast
    finally show ?thesis
      unfolding code_names_last [OF False] .
  qed
qed

lemma drop_decorators_error: "drop_decorators ls = Inl err \<Longrightarrow> err = IndexError"
  by (induction ls) (auto split: list.splits if_splits)

lemma ast_code_of_error:
  "ast_code_of h e func = Inl err \<Longrightarrow> err \<noteq> CodehashError x"
  by (auto simp: ast_code_of_def split: option.splits sum.splits if_splits list.splits
           dest: drop_decorators_error)

section \<open>The loop over the dependencies\<close>

lemma loop_append:
  "hashed_globals_loop rec h e f hook (pre @ rest) hg c =
     (case hashed_globals_loop rec h e f hook pre hg c of
        None \<Rightarrow> None
      | Some (Inl err, c') \<Rightarrow> Some (Inl err, c')
      | Some (Inr hg', c') \<Rightarrow> hashed_globals_loop rec h e f hook rest hg' c')"
  by (induction pre arbitrary: hg c) (auto split: option.splits sum.splits prod.splits)

lemma hash_global_generic:
  "module_and_fullname e v = None \<Longrightarrow>
   hash_global rec h e f hook v c =
     (case repr_hashable h v hook of
        Inl err \<Rightarrow> Some (Inl err, c)
      | Inr text \<Rightarrow> Some (Inr (''composite:'' @ hash_text h text), c))"
  by (simp add: hash_global_def)

lemma hash_global_unversioned:
  "unversioned_function e g \<Longrightarrow> g \<noteq> f \<Longrightarrow>
   hash_global rec h e f hook (VFunc g) c =
     (case rec c g of
        None \<Rightarrow> None
      | Some (Inl err, c') \<Rightarrow> Some (Inl err, c')
      | Some (Inr hashid, c') \<Rightarrow> Some (Inr (''function:'' @ hashid), c'))"
  by (auto simp: hash_global_def unversioned_function_def
           split: option.splits sum.splits prod.splits)

lemma hashed_globals_of_items:
  "cv_unbound (getclosurevars e f) = {} \<Longrightarrow>
   hashed_globals_of rec h e f hook c = hashed_globals_loop rec h e f hook (items_of e f) [] c"
  by (simp add: hashed_globals_of_def items_of_def Let_def)

section \<open>The cache and the hook in the computation\<close>

lemma map_raise_transfer:
  "(\<And>x y. x \<in> set xs \<Longrightarrow> f x = Inr y \<Longrightarrow> g x = Inr y) \<Longrightarrow>
   map_raise f xs = Inr ys \<Longrightarrow> map_raise g xs = Inr ys"
  by (induction xs arbitrary: ys) (auto split: sum.splits)

lemma deep_transform_transfer:
  "(\<And>ob x. t1 ob = Inr x \<Longrightarrow> t2 ob = Inr x) \<Longrightarrow>
   deep_transform v t1 = Inr w \<Longrightarrow> deep_transform v t2 = Inr w"
proof (induction v t1 arbitrary: w rule: deep_transform.induct)
  case (6 xs t1)
  from "6.prems"(2) obtain ys where ys: "map_raise (\<lambda>x. deep_transform x t1) xs = Inr ys"
    and w: "w = VList ys"
    by (auto split: sum.splits)
  have "map_raise (\<lambda>x. deep_transform x t2) xs = Inr ys"
    using "6.IH" "6.prems"(1) by (intro map_raise_transfer [OF _ ys]) blast
  with w show ?case by simp
next
  case (7 xs t1)
  from "7.prems"(2) obtain ys where ys: "map_raise (\<lambda>x. deep_transform x t1) xs = Inr ys"
    and w: "w = VTuple ys"
    by (auto split: sum.splits)
  have "map_raise (\<lambda>x. deep_transform x t2) xs = Inr ys"
    using "7.IH" "7.prems"(1) by (intro map_raise_transfer [OF _ ys]) blast
  with w show ?case by simp
next
  case (8 kvs t1)
  let ?f = "\<lambda>t k. case map_of kvs k of None \<Rightarrow> Inl KeyError
              | Some v \<Rightarrow> (case deep_transform v t of Inl e \<Rightarrow> Inl e | Inr w \<Rightarrow> Inr (k, w))"
  from "8.prems"(2) obtain ks kws where ks: "sorted_py (map fst kvs) = Inr ks"
    and kws: "map_raise (?f t1) ks = Inr kws" and w: "w = VDict kws"
    by (auto split: sum.splits)
  have "map_raise (?f t2) ks = Inr kws"
  proof (rule map_raise_transfer [OF _ kws])
    fix k y assume k: "k \<in> set ks" and y: "?f t1 k = Inr y"
    then obtain v u where v: "map_of kvs k = Some v" and u: "deep_transform v t1 = Inr u"
      and "y = (k, u)"
      by (auto split: option.splits sum.splits)
    from "8.IH" [OF ks k v "8.prems"(1) u] have "deep_transform v t2 = Inr u" by simp
    with v \<open>y = (k, u)\<close> show "?f t2 k = Inr y" by simp
  qed
  with ks w show ?case by simp
qed (auto)

lemma transform_no_hook:
  "transform (\<lambda>ob. None) ob = Inr x \<Longrightarrow> transform k ob = Inr x"
  by (auto simp: transform_def Let_def split: option.splits)

lemma repr_hashable_no_hook:
  "repr_hashable h v None = Inr t \<Longrightarrow> repr_hashable h v hook = Inr t"
proof -
  assume a: "repr_hashable h v None = Inr t"
  then obtain w where w: "deep_transform v (transform (\<lambda>ob. None)) = Inr w" and t: "t = repr h w"
    by (auto simp: repr_hashable_def split: sum.splits)
  have "deep_transform v (transform k) = Inr w" for k
    using transform_no_hook by (rule deep_transform_transfer [OF _ w])
  with t show ?thesis
    by (cases hook) (auto simp: repr_hashable_def w)
qed

lemma hash_global_cache:
  assumes "hash_global rec h e f hook v c = Some (r, c')"
  shows "c' = c \<or> (\<exists>g r'. rec c g = Some (r', c') \<and> (\<forall>d. r = Inr d \<longrightarrow> (\<exists>d'. r' = Inr d')))"
proof (cases "\<exists>g. v = VFunc g \<and> g \<noteq> f \<and> unversioned_function e g")
  case True
  then obtain g where "v = VFunc g" "g \<noteq> f" "unversioned_function e g" by blast
  with assms show ?thesis
    by (auto simp: hash_global_unversioned split: option.splits sum.splits prod.splits)
next
  case False
  show ?thesis
  proof (cases "module_and_fullname e v")
    case None
    with assms show ?thesis
      by (auto simp: hash_global_generic split: sum.splits)
  next
    case (Some mf)
    show ?thesis
    proof (cases mf)
      case (Inl err)
      with Some assms show ?thesis by (simp add: hash_global_def)
    next
      case (Inr p)
      obtain modl fullname where p: "p = (modl, fullname)" by (cases p)
      show ?thesis
      proof (cases "is_stdlib e modl = Inr False \<and> version_of e modl = Inr None")
        case True
        with False Some Inr p have "(\<forall>g. v \<noteq> VFunc g) \<or> v = VFunc f"
          by (auto simp: unversioned_function_def)
        with True Some Inr p assms show ?thesis
          by (auto simp: hash_global_def split: pyval.splits)
      next
        case False
        with Some Inr p assms show ?thesis
          by (auto simp: hash_global_def split: sum.splits bool.splits option.splits)
      qed
    qed
  qed
qed

lemma loop_cache_any:
  assumes rec: "\<And>c g r c'. P c \<Longrightarrow> rec c g = Some (r, c') \<Longrightarrow> P c'"
  shows "P c \<Longrightarrow> hashed_globals_loop rec h e f hook items hg c = Some (r, c') \<Longrightarrow> P c'"
proof (induction items arbitrary: hg c)
  case Nil
  then show ?case by simp
next
  case (Cons item items)
  obtain name obj where item: "item = (name, obj)" by (cases item)
  from Cons.prems(2) item obtain r1 c1 where
    g: "hash_global rec h e f hook obj c = Some (r1, c1)"
    by (auto split: option.splits)
  from hash_global_cache [OF g] consider "c1 = c" | g' r' where "rec c g' = Some (r', c1)"
    by auto
  then have P1: "P c1"
  proof cases
    case 1
    with Cons.prems(1) show ?thesis by simp
  next
    case 2
    from rec [OF Cons.prems(1) 2] show ?thesis .
  qed
  show ?case
  proof (cases r1)
    case (Inl err)
    with Cons.prems(2) item g P1 show ?thesis by simp
  next
    case (Inr tok)
    with Cons.prems(2) item g have
      "hashed_globals_loop rec h e f hook items (dict_set hg name tok) c1 = Some (r, c')"
      by simp
    from Cons.IH [OF P1 this] show ?thesis .
  qed
qed

lemma loop_cache_success:
  assumes rec: "\<And>c g d c'. P c \<Longrightarrow> rec c g = Some (Inr d, c') \<Longrightarrow> P c'"
  shows "P c \<Longrightarrow> hashed_globals_loop rec h e f hook items hg c = Some (Inr hg', c') \<Longrightarrow> P c'"
proof (induction items arbitrary: hg c)
  case Nil
  then show ?case by simp
next
  case (Cons item items)
  obtain name obj where item: "item = (name, obj)" by (cases item)
  from Cons.prems(2) item obtain tok c1 where
    g: "hash_global rec h e f hook obj c = Some (Inr tok, c1)"
    and rest: "hashed_globals_loop rec h e f hook items (dict_set hg name tok) c1 = Some (Inr hg', c')"
    by (auto split: option.splits sum.splits)
  from hash_global_cache [OF g] consider "c1 = c" | g' d where "rec c g' = Some (Inr d, c1)"
    by auto
  then have "P c1"
  proof cases
    case 1
    with Cons.prems(1) show ?thesis by simp
  next
    case 2
    from rec [OF Cons.prems(1) 2] show ?thesis .
  qed
  from Cons.IH [OF this rest] show ?case .
qed

lemma hash_function_mono:
  "hash_function n h e c f hook = Some (r, c') \<Longrightarrow> c \<subseteq>\<^sub>m c'"
proof (induction n arbitrary: c f hook r c')
  case 0
  then show ?case by simp
next
  case (Suc n)
  show ?case
  proof (cases "c f")
    case (Some d)
    with Suc.prems show ?thesis by simp
  next
    case None
    show ?thesis
    proof (cases "ast_code_of h e f")
      case (Inl err)
      with None Suc.prems show ?thesis by simp
    next
      case (Inr a)
      from None Inr Suc.prems obtain r1 c1 where
        hg: "hashed_globals_of (\<lambda>c' g. hash_function n h e c' g None) h e f hook c = Some (r1, c1)"
        by (auto split: option.splits)
      have c1: "c \<subseteq>\<^sub>m c1"
      proof (cases "cv_unbound (getclosurevars e f) = {}")
        case True
        with hg have l: "hashed_globals_loop (\<lambda>c' g. hash_function n h e c' g None) h e f hook
               (items_of e f) [] c = Some (r1, c1)"
          by (simp add: hashed_globals_of_items)
        show ?thesis
          by (rule loop_cache_any [where P = "\<lambda>x. c \<subseteq>\<^sub>m x", OF _ _ l])
             (auto dest: Suc.IH intro: map_le_trans)
      next
        case False
        with hg show ?thesis by (simp add: hashed_globals_of_def Let_def)
      qed
      have "c1 \<subseteq>\<^sub>m c'"
        using None Inr Suc.prems hg
        by (auto split: sum.splits option.splits simp: map_le_def Let_def)
      with c1 show ?thesis by (rule map_le_trans)
    qed
  qed
qed

lemma hash_function_miss:
  "c f = None \<Longrightarrow> ast_code_of h e f = Inr a \<Longrightarrow>
   hash_function (Suc n) h e c f hook =
     (case hashed_globals_of (\<lambda>c' g. hash_function n h e c' g None) h e f hook c of
        None \<Rightarrow> None
      | Some (Inl err, c') \<Rightarrow> Some (Inl err, c')
      | Some (Inr hashed_globals, c') \<Rightarrow>
          (case repr_hashable h (spec_dict a hashed_globals) None of
             Inl err \<Rightarrow> Some (Inl err, c')
           | Inr spec \<Rightarrow>
               (case c' f of
                  Some hashid \<Rightarrow> Some (Inr hashid, c')
                | None \<Rightarrow> Some (Inr (hash_text h spec), c'(f \<mapsto> hash_text h spec)))))"
  by simp

lemma hash_function_cached:
  assumes "hash_function n h e c f hook = Some (Inr d, c')"
  shows "c' f = Some d"
proof (cases n)
  case 0
  with assms show ?thesis by simp
next
  case (Suc m)
  show ?thesis
  proof (cases "c f")
    case (Some x)
    with assms Suc show ?thesis by simp
  next
    case None
    show ?thesis
    proof (cases "ast_code_of h e f")
      case (Inl err)
      with assms Suc None show ?thesis by simp
    next
      case (Inr a)
      from assms show ?thesis
        unfolding Suc hash_function_miss [where c = c and f = f, OF None Inr]
        by (auto split: option.splits sum.splits prod.splits)
    qed
  qed
qed

section \<open>Sorting and serializing dicts of strings\<close>

lemma py_less_str: "is_str x \<Longrightarrow> is_str y \<Longrightarrow> \<exists>b. py_less x y = Some b"
  by (cases x; cases y) (auto simp: py_less.simps(1))

lemma insert_sorted_Cons:
  "insert_sorted x (y # ys) =
     (if py_less x y = None then Inl TypeError
      else if py_less x y = Some True then Inr (x # y # ys)
      else (case insert_sorted x ys of Inl e \<Rightarrow> Inl e | Inr zs \<Rightarrow> Inr (y # zs)))"
  by (cases "py_less x y") (auto split: bool.splits)

lemma insert_sorted_set: "insert_sorted x ys = Inr zs \<Longrightarrow> set zs = insert x (set ys)"
proof (induction ys arbitrary: zs)
  case Nil
  then show ?case by auto
next
  case (Cons y ys)
  show ?case
  proof (cases "py_less x y = Some True")
    case True
    with Cons.prems show ?thesis by (auto simp: insert_sorted_Cons simp del: insert_sorted.simps)
  next
    case False
    with Cons.prems obtain zs' where zs': "insert_sorted x ys = Inr zs'" and zs: "zs = y # zs'"
      by (auto simp: insert_sorted_Cons simp del: insert_sorted.simps split: if_splits sum.splits)
    from Cons.IH [OF zs'] zs show ?thesis by auto
  qed
qed

lemma sorted_into_set: "sorted_into acc xs = Inr zs \<Longrightarrow> set zs = set acc \<union> set xs"
proof (induction xs arbitrary: acc)
  case Nil
  then show ?case by simp
next
  case (Cons x xs)
  then obtain acc' where a: "insert_sorted x acc = Inr acc'" and r: "sorted_into acc' xs = Inr zs"
    by (auto split: sum.splits)
  from Cons.IH [OF r] insert_sorted_set [OF a] show ?case by auto
qed

lemma sorted_py_set: "sorted_py xs = Inr zs \<Longrightarrow> set zs = set xs"
  using sorted_into_set [of "[]" xs zs] by (simp add: sorted_py_def)
lemma insert_sorted_str:
  "is_str x \<Longrightarrow> \<forall>y \<in> set ys. is_str y \<Longrightarrow> \<exists>zs. insert_sorted x ys = Inr zs"
proof (induction ys)
  case Nil
  show ?case by simp
next
  case (Cons y ys)
  then obtain b where b: "py_less x y = Some b"
    using py_less_str [of x y] by auto
  from Cons obtain zs where "insert_sorted x ys = Inr zs" by auto
  with b show ?case
    by (cases b) (simp_all add: insert_sorted_Cons del: insert_sorted.simps)
qed

lemma sorted_into_str:
  "\<forall>y \<in> set acc. is_str y \<Longrightarrow> \<forall>y \<in> set xs. is_str y \<Longrightarrow> \<exists>zs. sorted_into acc xs = Inr zs"
proof (induction xs arbitrary: acc)
  case Nil
  show ?case by simp
next
  case (Cons x xs)
  then obtain acc' where a: "insert_sorted x acc = Inr acc'"
    using insert_sorted_str [of x acc] by auto
  have "\<forall>y \<in> set acc'. is_str y"
    using insert_sorted_set [OF a] Cons.prems by auto
  with Cons.IH [of acc'] Cons.prems(2) a show ?case by auto
qed

lemma sorted_py_str: "\<forall>y \<in> set xs. is_str y \<Longrightarrow> \<exists>zs. sorted_py xs = Inr zs"
  by (simp add: sorted_py_def sorted_into_str)

lemma map_raise_all:
  "(\<And>x. x \<in> set xs \<Longrightarrow> f x = Inr (g x)) \<Longrightarrow> map_raise f xs = Inr (map g xs)"
  by (induction xs) auto

lemma map_of_str_items_VStr:
  "map_of (str_items d) (VStr k) = map_option VStr (map_of d k)"
  by (induction d) (auto simp: str_items_def)

lemma map_of_str_items:
  assumes "k \<in> set (map fst (str_items d))"
  shows "\<exists>v. map_of (str_items d) k = Some (VStr v)"
proof -
  from assms obtain s v where "k = VStr s" and "(s, v) \<in> set d"
    by (auto simp: str_items_def)
  then have "map_of d s \<noteq> None"
    by (metis map_of_eq_None_iff image_eqI fst_conv)
  with \<open>k = VStr s\<close> show ?thesis
    by (auto simp: map_of_str_items_VStr)
qed

lemma spec_dict_str_items:
  "spec_dict a hg = VDict [(VStr ''ast_code'', VStr a), (VStr ''globals'', VDict (str_items hg))]"
  by (simp add: spec_dict_def str_items_def)

lemma deep_transform_str_items:
  assumes "sorted_py (map fst (str_items d)) = Inr ks"
  shows "deep_transform (VDict (str_items d)) t =
           Inr (VDict (map (\<lambda>k. (k, the (map_of (str_items d) k))) ks))"
proof -
  have mr: "map_raise (\<lambda>k. case map_of (str_items d) k of None \<Rightarrow> Inl KeyError
            | Some v \<Rightarrow> (case deep_transform v t of Inl e \<Rightarrow> Inl e | Inr w \<Rightarrow> Inr (k, w))) ks
         = Inr (map (\<lambda>k. (k, the (map_of (str_items d) k))) ks)"
  proof (rule map_raise_all)
    fix k assume "k \<in> set ks"
    with sorted_py_set [OF assms] have "k \<in> set (map fst (str_items d))" by simp
    from map_of_str_items [OF this] obtain v where "map_of (str_items d) k = Some (VStr v)" ..
    then show "(case map_of (str_items d) k of None \<Rightarrow> Inl KeyError
            | Some v \<Rightarrow> (case deep_transform v t of Inl e \<Rightarrow> Inl e | Inr w \<Rightarrow> Inr (k, w)))
          = Inr (k, the (map_of (str_items d) k))"
      by simp
  qed
  show ?thesis
    by (simp only: deep_transform.simps(8) assms mr sum.case)
qed

lemma sorted_py_spec_keys:
  "sorted_py [VStr ''ast_code'', VStr ''globals''] = Inr [VStr ''ast_code'', VStr ''globals'']"
  by (simp add: sorted_py_def py_less.simps(1))

lemma repr_hashable_spec_dict:
  assumes "sorted_py (map fst (str_items hg)) = Inr ks"
  shows "repr_hashable h (spec_dict a hg) hook =
           Inr (repr h (VDict [(VStr ''ast_code'', VStr a),
                  (VStr ''globals'', VDict (map (\<lambda>k. (k, the (map_of (str_items hg) k))) ks))]))"
proof -
  have "deep_transform (spec_dict a hg) t =
          Inr (VDict [(VStr ''ast_code'', VStr a),
                  (VStr ''globals'', VDict (map (\<lambda>k. (k, the (map_of (str_items hg) k))) ks))])"
    for t
    unfolding spec_dict_str_items
    by (subst deep_transform.simps(8))
       (simp add: sorted_py_spec_keys deep_transform_str_items [OF assms]
             del: deep_transform.simps(8))
  then show ?thesis by (simp add: repr_hashable_def)
qed

lemma repr_hashable_spec_dict_ok: "\<exists>s. repr_hashable h (spec_dict a hg) hook = Inr s"
proof -
  have "\<forall>y \<in> set (map fst (str_items hg)). is_str y"
    by (auto simp: str_items_def)
  from sorted_py_str [OF this] obtain ks where "sorted_py (map fst (str_items hg)) = Inr ks" ..
  from repr_hashable_spec_dict [OF this] show ?thesis by blast
qed

section \<open>The depth of the calls\<close>

text \<open>Only a function of kind 3 other than the function itself makes the loop call hash_function.\<close>

lemma hash_global_no_call:
  assumes "\<not> (\<exists>g. v = VFunc g \<and> g \<noteq> f \<and> unversioned_function e g)"
  shows "hash_global rec h e f hook v c = hash_global rec' h e f hook v c"
proof (cases "module_and_fullname e v")
  case None
  then show ?thesis by (simp add: hash_global_generic)
next
  case (Some mf)
  show ?thesis
  proof (cases mf)
    case (Inl err)
    with Some show ?thesis by (simp add: hash_global_def)
  next
    case (Inr p)
    obtain modl fullname where p: "p = (modl, fullname)" by (cases p)
    show ?thesis
    proof (cases "is_stdlib e modl = Inr False \<and> version_of e modl = Inr None")
      case True
      with assms Some Inr p have "(\<forall>g. v \<noteq> VFunc g) \<or> v = VFunc f"
        by (auto simp: unversioned_function_def)
      with True Some Inr p show ?thesis
        by (auto simp: hash_global_def split: pyval.splits)
    next
      case False
      with Some Inr p show ?thesis
        by (auto simp: hash_global_def split: sum.splits bool.splits option.splits)
    qed
  qed
qed

lemma hash_global_rec_mono:
  assumes rec: "\<And>c g r. rec c g = Some r \<Longrightarrow> rec' c g = Some r"
    and "hash_global rec h e f hook v c = Some r"
  shows "hash_global rec' h e f hook v c = Some r"
proof (cases "\<exists>g. v = VFunc g \<and> g \<noteq> f \<and> unversioned_function e g")
  case True
  then obtain g where g: "v = VFunc g" "g \<noteq> f" "unversioned_function e g" by blast
  with assms(2) obtain r' where r': "rec c g = Some r'"
    by (auto simp: hash_global_unversioned split: option.splits)
  from rec [OF r'] r' assms(2) g show ?thesis
    by (simp add: hash_global_unversioned)
next
  case False
  from hash_global_no_call [OF False, of rec' h hook c rec] assms(2) show ?thesis by simp
qed

lemma loop_rec_mono:
  assumes rec: "\<And>c g r. rec c g = Some r \<Longrightarrow> rec' c g = Some r"
  shows "hashed_globals_loop rec h e f hook items hg c = Some r \<Longrightarrow>
         hashed_globals_loop rec' h e f hook items hg c = Some r"
proof (induction items arbitrary: hg c)
  case Nil
  then show ?case by simp
next
  case (Cons item items)
  obtain name obj where item: "item = (name, obj)" by (cases item)
  from Cons.prems item obtain r1 c1 where
    g: "hash_global rec h e f hook obj c = Some (r1, c1)"
    by (auto split: option.splits)
  from hash_global_rec_mono [of rec rec', OF rec g]
  have g': "hash_global rec' h e f hook obj c = Some (r1, c1)" .
  show ?case
  proof (cases r1)
    case (Inl err)
    with Cons.prems item g g' show ?thesis by simp
  next
    case (Inr tok)
    with Cons.prems item g have
      "hashed_globals_loop rec h e f hook items (dict_set hg name tok) c1 = Some r"
      by simp
    from Cons.IH [OF this] item g' Inr show ?thesis by simp
  qed
qed

lemma hashed_globals_of_rec_mono:
  assumes rec: "\<And>c g r. rec c g = Some r \<Longrightarrow> rec' c g = Some r"
    and "hashed_globals_of rec h e f hook c = Some r"
  shows "hashed_globals_of rec' h e f hook c = Some r"
proof (cases "cv_unbound (getclosurevars e f) = {}")
  case True
  with assms(2) show ?thesis
    by (simp add: hashed_globals_of_items loop_rec_mono [of rec rec', OF rec])
next
  case False
  with assms(2) show ?thesis by (simp add: hashed_globals_of_def Let_def)
qed

lemma hash_function_fuel_Suc:
  "hash_function n h e c f hook = Some r \<Longrightarrow> hash_function (Suc n) h e c f hook = Some r"
proof (induction n arbitrary: c f hook r)
  case 0
  then show ?case by simp
next
  case (Suc n)
  show ?case
  proof (cases "c f")
    case (Some d)
    with Suc.prems show ?thesis by simp
  next
    case None
    show ?thesis
    proof (cases "ast_code_of h e f")
      case (Inl err)
      with None Suc.prems show ?thesis by simp
    next
      case (Inr a)
      from Suc.prems obtain r1 where
        hg: "hashed_globals_of (\<lambda>c' g. hash_function n h e c' g None) h e f hook c = Some r1"
        unfolding hash_function_miss [where c = c and f = f, OF None Inr]
        by (auto split: option.splits)
      have "hashed_globals_of (\<lambda>c' g. hash_function (Suc n) h e c' g None) h e f hook c = Some r1"
        by (rule hashed_globals_of_rec_mono [OF _ hg]) (rule Suc.IH)
      with hg Suc.prems show ?thesis
        unfolding hash_function_miss [where c = c and f = f, OF None Inr]
        by simp
    qed
  qed
qed

lemma hash_function_fuel_le:
  "n \<le> m \<Longrightarrow> hash_function n h e c f hook = Some r \<Longrightarrow> hash_function m h e c f hook = Some r"
  by (induction m) (auto simp: le_Suc_eq dest: hash_function_fuel_Suc simp del: hash_function.simps)

section \<open>Running the loop again\<close>

lemma hash_global_static:
  assumes "module_and_fullname e v = Some mf"
    and "\<not> (\<exists>g. v = VFunc g \<and> g \<noteq> f \<and> unversioned_function e g)"
  shows "\<exists>r. \<forall>rec hook c. hash_global rec h e f hook v c = Some (r, c)"
proof (cases mf)
  case (Inl err)
  with assms(1) show ?thesis by (simp add: hash_global_def)
next
  case (Inr p)
  obtain modl fullname where p: "p = (modl, fullname)" by (cases p)
  show ?thesis
  proof (cases "is_stdlib e modl")
    case (Inl err)
    with assms(1) Inr p show ?thesis by (simp add: hash_global_def)
  next
    case stdlib: (Inr b)
    show ?thesis
    proof (cases b)
      case True
      with stdlib assms(1) Inr p show ?thesis by (simp add: hash_global_def)
    next
      case False
      show ?thesis
      proof (cases "version_of e modl")
        case (Inl err)
        with False stdlib assms(1) Inr p show ?thesis by (simp add: hash_global_def)
      next
        case version: (Inr vo)
        show ?thesis
        proof (cases vo)
          case (Some version)
          with version False stdlib assms(1) Inr p show ?thesis by (simp add: hash_global_def)
        next
          case None
          with version False stdlib assms Inr p have "(\<forall>g. v \<noteq> VFunc g) \<or> v = VFunc f"
            by (auto simp: unversioned_function_def)
          with None version False stdlib assms(1) Inr p show ?thesis
            by (auto simp: hash_global_def split: pyval.splits)
        qed
      qed
    qed
  qed
qed

lemma hash_global_again:
  assumes first: "hash_global (\<lambda>c' g. hash_function n h e c' g None) h e f None v c = Some (Inr tok, c1)"
    and le: "c1 \<subseteq>\<^sub>m c2"
  shows "hash_global (\<lambda>c' g. hash_function n h e c' g None) h e f hook v c2 = Some (Inr tok, c2)"
proof (cases "\<exists>g. v = VFunc g \<and> g \<noteq> f \<and> unversioned_function e g")
  case True
  then obtain g where g: "v = VFunc g" "g \<noteq> f" "unversioned_function e g" by blast
  with first obtain d where d: "hash_function n h e c g None = Some (Inr d, c1)"
    and tok: "tok = ''function:'' @ d"
    by (auto simp: hash_global_unversioned split: option.splits sum.splits prod.splits)
  from hash_function_cached [OF d] le have c2: "c2 g = Some d"
    by (auto simp: map_le_def dom_def)
  from d obtain m where n: "n = Suc m" by (cases n) auto
  from c2 have "hash_function (Suc m) h e c2 g None = Some (Inr d, c2)" by simp
  with g tok n show ?thesis by (simp add: hash_global_unversioned del: hash_function.simps)
next
  case False
  show ?thesis
  proof (cases "module_and_fullname e v")
    case None
    with first obtain t where t: "repr_hashable h v None = Inr t"
      and tok: "tok = ''composite:'' @ hash_text h t"
      by (auto simp: hash_global_generic split: sum.splits)
    from repr_hashable_no_hook [OF t] None tok show ?thesis
      by (simp add: hash_global_generic)
  next
    case (Some mf)
    from hash_global_static [OF Some False] obtain r where
      r: "\<And>rec hook c. hash_global rec h e f hook v c = Some (r, c)"
      by blast
    from first r have "r = Inr tok" by simp
    with r show ?thesis by simp
  qed
qed

lemma loop_again:
  assumes "hashed_globals_loop (\<lambda>c' g. hash_function n h e c' g None) h e f None items hg c
             = Some (Inr hg', c1)"
    and "c1 \<subseteq>\<^sub>m c2"
  shows "hashed_globals_loop (\<lambda>c' g. hash_function n h e c' g None) h e f hook items hg c2
             = Some (Inr hg', c2)"
  using assms
proof (induction items arbitrary: hg c)
  case Nil
  then show ?case by simp
next
  case (Cons item items)
  obtain name obj where item: "item = (name, obj)" by (cases item)
  from Cons.prems(1) item obtain tok ca where
    g: "hash_global (\<lambda>c' g. hash_function n h e c' g None) h e f None obj c = Some (Inr tok, ca)"
    and rest: "hashed_globals_loop (\<lambda>c' g. hash_function n h e c' g None) h e f None items
                 (dict_set hg name tok) ca = Some (Inr hg', c1)"
    by (auto split: option.splits sum.splits)
  have "ca \<subseteq>\<^sub>m c1"
    by (rule loop_cache_any [where P = "\<lambda>x. ca \<subseteq>\<^sub>m x", OF _ _ rest])
       (auto dest: hash_function_mono intro: map_le_trans)
  then have "ca \<subseteq>\<^sub>m c2" using Cons.prems(2) by (rule map_le_trans)
  from hash_global_again [OF g this] Cons.IH [OF rest Cons.prems(2)] item
  show ?case by simp
qed

text \<open>A function with a dependency that cannot be hashed without hook.\<close>

lemma loop_success_item:
  "hashed_globals_loop rec h e f hook items hg c = Some (Inr hg', c') \<Longrightarrow>
   (name, v) \<in> set items \<Longrightarrow>
   \<exists>c1 tok c2. hash_global rec h e f hook v c1 = Some (Inr tok, c2)"
proof (induction items arbitrary: hg c)
  case Nil
  then show ?case by simp
next
  case (Cons item items)
  obtain name' obj where item: "item = (name', obj)" by (cases item)
  from Cons.prems(1) item obtain tok ca where
    g: "hash_global rec h e f hook obj c = Some (Inr tok, ca)"
    and rest: "hashed_globals_loop rec h e f hook items (dict_set hg name' tok) ca = Some (Inr hg', c')"
    by (auto split: option.splits sum.splits)
  show ?case
  proof (cases "(name, v) = item")
    case True
    with item g show ?thesis by blast
  next
    case False
    with Cons.prems(2) have "(name, v) \<in> set items" by simp
    from Cons.IH [OF rest this] show ?thesis .
  qed
qed

lemma unhashable_never_succeeds:
  assumes item: "(name, v) \<in> set (items_of e f)"
    and generic: "module_and_fullname e v = None"
    and fails: "repr_hashable h v None = Inl err"
    and miss: "c f = None"
  shows "hash_function n h e c f None \<noteq> Some (Inr d, c')"
proof
  assume s: "hash_function n h e c f None = Some (Inr d, c')"
  then obtain m where n: "n = Suc m" by (cases n) auto
  from s n miss obtain a where a: "ast_code_of h e f = Inr a"
    by (cases "ast_code_of h e f") auto
  from s obtain hg c1 where
    hg: "hashed_globals_of (\<lambda>c' g. hash_function m h e c' g None) h e f None c = Some (Inr hg, c1)"
    unfolding n hash_function_miss [where c = c and f = f, OF miss a]
    by (auto split: option.splits sum.splits prod.splits)
  then have u: "cv_unbound (getclosurevars e f) = {}"
    by (auto simp: hashed_globals_of_def Let_def split: if_splits)
  from hg have "hashed_globals_loop (\<lambda>c' g. hash_function m h e c' g None) h e f None
                  (items_of e f) [] c = Some (Inr hg, c1)"
    by (simp add: hashed_globals_of_items [OF u])
  from loop_success_item [OF this item] generic fails show False
    by (simp add: hash_global_generic)
qed

lemma unhashable_stays_uncached:
  assumes item: "(name, v) \<in> set (items_of e f)"
    and generic: "module_and_fullname e v = None"
    and fails: "repr_hashable h v None = Inl err"
  shows "c f = None \<Longrightarrow> hash_function n h e c g None = Some (Inr d, c') \<Longrightarrow> c' f = None"
proof (induction n arbitrary: c g d c')
  case 0
  then show ?case by simp
next
  case (Suc n)
  from unhashable_never_succeeds [where c = c and f = f, OF item generic fails Suc.prems(1)]
    Suc.prems(2)
  have ne: "g \<noteq> f" by blast
  show ?case
  proof (cases "c g")
    case (Some x)
    with Suc.prems show ?thesis by simp
  next
    case None
    from Suc.prems(2) None obtain a where a: "ast_code_of h e g = Inr a"
      by (cases "ast_code_of h e g") auto
    from Suc.prems(2) obtain hg c1 where
      hg: "hashed_globals_of (\<lambda>c' g. hash_function n h e c' g None) h e g None c = Some (Inr hg, c1)"
      and c': "c' = c1 \<or> (\<exists>x. c' = c1(g \<mapsto> x))"
      unfolding hash_function_miss [where c = c and f = g, OF None a]
      by (auto split: option.splits sum.splits prod.splits)
    then have u: "cv_unbound (getclosurevars e g) = {}"
      by (auto simp: hashed_globals_of_def Let_def split: if_splits)
    from hg have l: "hashed_globals_loop (\<lambda>c' g. hash_function n h e c' g None) h e g None
                  (items_of e g) [] c = Some (Inr hg, c1)"
      by (simp add: hashed_globals_of_items [OF u])
    have "c1 f = None"
      by (rule loop_cache_success [where P = "\<lambda>x. x f = None", OF _ Suc.prems(1) l])
         (rule Suc.IH)
    with c' ne show ?thesis by auto
  qed
qed

section \<open>The names of the dependency map\<close>

lemma dict_set_map_fst:
  "map fst (dict_set d k v) = (if k \<in> set (map fst d) then map fst d else map fst d @ [k])"
  by (induction d) (force simp: image_iff)+

lemma dict_set_keys: "fst ` set (dict_set d k v) = insert k (fst ` set d)"
proof -
  have "set (map fst (dict_set d k v)) = insert k (set (map fst d))"
    unfolding dict_set_map_fst by auto
  then show ?thesis by simp
qed

lemma dict_set_values:
  "(k', v') \<in> set (dict_set d k v) \<Longrightarrow> (k', v') = (k, v) \<or> (k', v') \<in> set d"
  by (induction d) (auto split: if_splits)

lemma fold_dict_set_keys:
  "fst ` set (fold (\<lambda>(name, v) d. dict_set d name v) kvs d) = fst ` set d \<union> fst ` set kvs"
proof (induction kvs arbitrary: d)
  case Nil
  show ?case by simp
next
  case (Cons kv kvs)
  obtain k v where kv: "kv = (k, v)" by (cases kv)
  show ?case
    unfolding kv by (simp add: Cons.IH dict_set_keys)
qed

lemma fold_resolve_nonlocals:
  "cv_nonlocals (fold (resolve_name g b) names cv) = cv_nonlocals cv"
  by (induction names arbitrary: cv) (auto simp: resolve_name_def split: option.splits)

lemma resolve_name_globals_keys:
  "fst ` set (cv_globals (resolve_name g b n cv)) =
     fst ` set (cv_globals cv) \<union> (if g n \<noteq> None then {n} else {})"
  by (cases "g n"; cases "b n") (simp_all add: resolve_name_def dict_set_keys)

lemma fold_resolve_globals_keys:
  "fst ` set (cv_globals (fold (resolve_name g b) names cv)) =
     fst ` set (cv_globals cv) \<union> {n \<in> set names. g n \<noteq> None}"
proof (induction names arbitrary: cv)
  case Nil
  show ?case by simp
next
  case (Cons n names)
  have "fst ` set (cv_globals (fold (resolve_name g b) (n # names) cv)) =
          (fst ` set (cv_globals cv) \<union> (if g n \<noteq> None then {n} else {}))
          \<union> {n \<in> set names. g n \<noteq> None}"
    by (simp add: Cons.IH resolve_name_globals_keys)
  also have "\<dots> = fst ` set (cv_globals cv) \<union> {m \<in> set (n # names). g m \<noteq> None}"
    by auto
  finally show ?case .
qed

lemma walk_codes_nonlocals:
  "cv_nonlocals (walk_codes g b codes cv) = cv_nonlocals cv"
proof (induction g b codes cv rule: walk_codes.induct)
  case (1 g b codes cv)
  show ?case
  proof (cases "codes = []")
    case True
    then show ?thesis by (simp add: walk_codes_Nil)
  next
    case False
    from "1.IH" [OF False refl refl] False show ?thesis
      by (simp add: walk_codes.simps [of g b codes cv] Let_def fold_resolve_nonlocals)
  qed
qed

lemma walk_codes_globals_keys:
  "fst ` set (cv_globals (walk_codes g b codes cv)) =
     fst ` set (cv_globals cv) \<union> {n \<in> (\<Union>c \<in> set codes. code_names c). g n \<noteq> None}"
proof (induction g b codes cv rule: walk_codes.induct)
  case (1 g b codes cv)
  show ?case
  proof (cases "codes = []")
    case True
    then show ?thesis by (simp add: walk_codes_Nil)
  next
    case False
    from "1.IH" [OF False refl refl]
    have "fst ` set (cv_globals (walk_codes g b codes cv)) =
            fst ` set (cv_globals (fold (resolve_name g b) (co_names (last codes)) cv)) \<union>
            {n \<in> (\<Union>c \<in> set (butlast codes @ co_consts (last codes)). code_names c).
               g n \<noteq> None}"
      using False by (simp add: walk_codes.simps [of g b codes cv] Let_def)
    also have "\<dots> = fst ` set (cv_globals cv) \<union>
         {n \<in> (\<Union>c \<in> set (butlast codes @ co_consts (last codes)). code_names c)
                 \<union> set (co_names (last codes)). g n \<noteq> None}"
      unfolding fold_resolve_globals_keys by blast
    finally show ?thesis
      unfolding code_names_last [OF False] .
  qed
qed

lemma items_of_keys:
  "fst ` set (items_of e f) =
     set (take (length (fn_closure (function_objects e f)))
            (co_freevars (fn_code (function_objects e f))))
     \<union> {n \<in> code_names (fn_code (function_objects e f)).
          fn_globals (function_objects e f) n \<noteq> None}"
proof -
  have "fst ` set (zip xs ys) = set (take (length ys) xs)" for xs :: "string list" and ys :: "pyval list"
  proof (induction xs arbitrary: ys)
    case Nil
    show ?case by simp
  next
    case (Cons x xs)
    then show ?case by (cases ys) auto
  qed
  then show ?thesis
    by (simp add: items_of_def getclosurevars_def Let_def image_Un walk_codes_nonlocals
          walk_codes_globals_keys fold_dict_set_keys)
qed

lemma loop_keys:
  "hashed_globals_loop rec h e f hook items hg c = Some (Inr hg', c') \<Longrightarrow>
   fst ` set hg' = fst ` set hg \<union> fst ` set items"
proof (induction items arbitrary: hg c)
  case Nil
  then show ?case by simp
next
  case (Cons item items)
  obtain name obj where item: "item = (name, obj)" by (cases item)
  from Cons.prems item obtain tok ca where
    rest: "hashed_globals_loop rec h e f hook items (dict_set hg name tok) ca = Some (Inr hg', c')"
    by (auto split: option.splits sum.splits)
  from Cons.IH [OF rest] item show ?case
    by (auto simp: dict_set_keys)
qed

lemma loop_tokens:
  assumes "hashed_globals_loop rec h e f hook items hg c = Some (Inr hg', c')"
    and "(name, tok) \<in> set hg'"
  shows "(name, tok) \<in> set hg \<or>
         (\<exists>v ca cb. (name, v) \<in> set items \<and> hash_global rec h e f hook v ca = Some (Inr tok, cb))"
  using assms
proof (induction items arbitrary: hg c)
  case Nil
  then show ?case by simp
next
  case (Cons item items)
  obtain name' obj where item: "item = (name', obj)" by (cases item)
  from Cons.prems(1) item obtain tok' ca where
    g: "hash_global rec h e f hook obj c = Some (Inr tok', ca)"
    and rest: "hashed_globals_loop rec h e f hook items (dict_set hg name' tok') ca = Some (Inr hg', c')"
    by (auto split: option.splits sum.splits)
  from Cons.IH [OF rest Cons.prems(2)]
  consider "(name, tok) \<in> set (dict_set hg name' tok')"
    | v ca cb where "(name, v) \<in> set items" "hash_global rec h e f hook v ca = Some (Inr tok, cb)"
    by blast
  then show ?case
  proof cases
    case 1
    from dict_set_values [OF 1] item g show ?thesis by auto
  next
    case 2
    then show ?thesis by auto
  qed
qed

section \<open>The values behind the dependency map\<close>

lemma dict_set_distinct: "distinct (map fst d) \<Longrightarrow> distinct (map fst (dict_set d k v))"
  by (simp add: dict_set_map_fst)

lemma dict_set_other: "k' \<noteq> k \<Longrightarrow> (k', v') \<in> set d \<Longrightarrow> (k', v') \<in> set (dict_set d k v)"
  by (induction d) auto

lemma dict_set_new: "(k, v) \<in> set (dict_set d k v)"
  by (induction d) auto

lemma resolve_name_globals_inv:
  assumes "distinct (map fst (cv_globals cv)) \<and> (\<forall>(n, v) \<in> set (cv_globals cv). g n = Some v)"
  shows "distinct (map fst (cv_globals (resolve_name g b n cv)))
         \<and> (\<forall>(n, v) \<in> set (cv_globals (resolve_name g b n cv)). g n = Some v)"
proof (cases "g n")
  case None
  with assms show ?thesis
    by (cases "b n") (simp_all add: resolve_name_def)
next
  case (Some v)
  with assms show ?thesis
    by (auto simp: resolve_name_def dict_set_distinct dest!: dict_set_values)
qed

lemma fold_resolve_globals_inv:
  "distinct (map fst (cv_globals cv)) \<and> (\<forall>(n, v) \<in> set (cv_globals cv). g n = Some v) \<Longrightarrow>
   distinct (map fst (cv_globals (fold (resolve_name g b) names cv)))
   \<and> (\<forall>(n, v) \<in> set (cv_globals (fold (resolve_name g b) names cv)). g n = Some v)"
proof (induction names arbitrary: cv)
  case Nil
  then show ?case by simp
next
  case (Cons n names)
  from Cons.IH [OF resolve_name_globals_inv [OF Cons.prems]] show ?case by simp
qed

lemma walk_codes_globals_inv:
  "distinct (map fst (cv_globals cv)) \<and> (\<forall>(n, v) \<in> set (cv_globals cv). g n = Some v) \<Longrightarrow>
   distinct (map fst (cv_globals (walk_codes g b codes cv)))
   \<and> (\<forall>(n, v) \<in> set (cv_globals (walk_codes g b codes cv)). g n = Some v)"
proof (induction g b codes cv rule: walk_codes.induct)
  case (1 g b codes cv)
  show ?case
  proof (cases "codes = []")
    case True
    with "1.prems" show ?thesis by (simp add: walk_codes_Nil)
  next
    case False
    from "1.IH" [OF False refl refl fold_resolve_globals_inv [OF "1.prems"]] False
    show ?thesis
      by (simp add: walk_codes.simps [of g b codes cv] Let_def)
  qed
qed

lemma getclosurevars_globals:
  "distinct (map fst (cv_globals (getclosurevars e f)))"
  "(n, v) \<in> set (cv_globals (getclosurevars e f)) \<longleftrightarrow>
     n \<in> code_names (fn_code (function_objects e f)) \<and> fn_globals (function_objects e f) n = Some v"
proof -
  let ?F = "function_objects e f"
  let ?cv0 = "\<lparr>cv_nonlocals = fold (\<lambda>(name, v) d. dict_set d name v)
                 (zip (co_freevars (fn_code ?F)) (fn_closure ?F)) [],
               cv_globals = [], cv_builtins = [], cv_unbound = {}\<rparr>"
  have inv: "distinct (map fst (cv_globals (getclosurevars e f)))
         \<and> (\<forall>(n, v) \<in> set (cv_globals (getclosurevars e f)). fn_globals ?F n = Some v)"
    unfolding getclosurevars_def Let_def
    by (rule walk_codes_globals_inv) simp
  then show "distinct (map fst (cv_globals (getclosurevars e f)))" by blast
  have keys: "fst ` set (cv_globals (getclosurevars e f)) =
          {n \<in> code_names (fn_code ?F). fn_globals ?F n \<noteq> None}"
    by (simp add: getclosurevars_def Let_def walk_codes_globals_keys)
  show "(n, v) \<in> set (cv_globals (getclosurevars e f)) \<longleftrightarrow>
     n \<in> code_names (fn_code ?F) \<and> fn_globals ?F n = Some v"
  proof
    assume a: "(n, v) \<in> set (cv_globals (getclosurevars e f))"
    then have "n \<in> fst ` set (cv_globals (getclosurevars e f))" by force
    with keys a inv show "n \<in> code_names (fn_code ?F) \<and> fn_globals ?F n = Some v" by auto
  next
    assume a: "n \<in> code_names (fn_code ?F) \<and> fn_globals ?F n = Some v"
    with keys have "n \<in> fst ` set (cv_globals (getclosurevars e f))" by auto
    then obtain v' where v': "(n, v') \<in> set (cv_globals (getclosurevars e f))" by auto
    with inv a have "v' = v" by auto
    with v' show "(n, v) \<in> set (cv_globals (getclosurevars e f))" by simp
  qed
qed

lemma loop_keeps:
  "hashed_globals_loop rec h e f hook items hg c = Some (Inr hg', c') \<Longrightarrow>
   (k, t) \<in> set hg \<Longrightarrow> k \<notin> fst ` set items \<Longrightarrow> (k, t) \<in> set hg'"
proof (induction items arbitrary: hg c)
  case Nil
  then show ?case by simp
next
  case (Cons item items)
  obtain name obj where item: "item = (name, obj)" by (cases item)
  from Cons.prems(1) item obtain tok ca where
    rest: "hashed_globals_loop rec h e f hook items (dict_set hg name tok) ca = Some (Inr hg', c')"
    by (auto split: option.splits sum.splits)
  from Cons.prems(3) item have "k \<noteq> name" and "k \<notin> fst ` set items" by auto
  from Cons.IH [OF rest dict_set_other [OF \<open>k \<noteq> name\<close> Cons.prems(2)] \<open>k \<notin> fst ` set items\<close>]
  show ?case .
qed

lemma loop_last:
  "hashed_globals_loop rec h e f hook (items @ (name, v) # rest) hg c = Some (Inr hg', c') \<Longrightarrow>
   name \<notin> fst ` set rest \<Longrightarrow>
   \<exists>tok ca cb. (name, tok) \<in> set hg' \<and> hash_global rec h e f hook v ca = Some (Inr tok, cb)"
proof -
  assume l: "hashed_globals_loop rec h e f hook (items @ (name, v) # rest) hg c = Some (Inr hg', c')"
    and n: "name \<notin> fst ` set rest"
  from l obtain hg1 ca where
    "hashed_globals_loop rec h e f hook ((name, v) # rest) hg1 ca = Some (Inr hg', c')"
    by (auto simp: loop_append split: option.splits sum.splits prod.splits)
  then obtain tok cb where g: "hash_global rec h e f hook v ca = Some (Inr tok, cb)"
    and r: "hashed_globals_loop rec h e f hook rest (dict_set hg1 name tok) cb = Some (Inr hg', c')"
    by (auto split: option.splits sum.splits)
  from loop_keeps [OF r dict_set_new n] g show ?thesis by blast
qed

lemma fold_dict_set_distinct:
  "distinct (map fst d) \<Longrightarrow> distinct (map fst (fold (\<lambda>(name, v) d. dict_set d name v) kvs d))"
proof (induction kvs arbitrary: d)
  case Nil
  then show ?case by simp
next
  case (Cons kv kvs)
  obtain k v where kv: "kv = (k, v)" by (cases kv)
  from Cons.IH [OF dict_set_distinct [OF Cons.prems]] show ?case
    unfolding kv by simp
qed

lemma getclosurevars_nonlocals_distinct:
  "distinct (map fst (cv_nonlocals (getclosurevars e f)))"
  by (simp add: getclosurevars_def Let_def walk_codes_nonlocals fold_dict_set_distinct)

lemma split_distinct_keys:
  assumes "distinct (map fst d)" and "(k, v) \<in> set d"
  shows "\<exists>xs ys. d = xs @ (k, v) # ys \<and> k \<notin> fst ` set ys"
proof -
  from split_list [OF assms(2)] obtain xs ys where d: "d = xs @ (k, v) # ys" by blast
  with assms(1) have "k \<notin> fst ` set ys" by auto
  with d show ?thesis by blast
qed

section \<open>The text that is digested\<close>

lemma join_Cons:
  "join sep (y # zs) = y @ (if zs = [] then [] else sep @ join sep zs)"
  by (cases zs) auto

lemma join_append:
  "join sep (xs @ y # zs) =
     (if xs = [] then [] else join sep xs @ sep) @ y @ (if zs = [] then [] else sep @ join sep zs)"
proof (induction xs)
  case Nil
  show ?case by (simp add: join_Cons)
next
  case (Cons x xs)
  show ?case
    by (simp add: join_Cons [of sep x] Cons.IH)
qed

lemma join_differs:
  assumes "F k \<noteq> G k" and "\<And>x. x \<in> set P \<union> set S \<Longrightarrow> F x = G x"
  shows "join sep (map F (P @ k # S)) \<noteq> join sep (map G (P @ k # S))"
proof -
  have P: "map F P = map G P" and S: "map F S = map G S"
    using assms(2) by auto
  show ?thesis
    unfolding map_append list.map join_append P S
    using assms(1) by simp
qed

lemma loop_distinct:
  "hashed_globals_loop rec h e f hook items hg c = Some (Inr hg', c') \<Longrightarrow>
   distinct (map fst hg) \<Longrightarrow> distinct (map fst hg')"
proof (induction items arbitrary: hg c)
  case Nil
  then show ?case by simp
next
  case (Cons item items)
  obtain name obj where item: "item = (name, obj)" by (cases item)
  from Cons.prems(1) item obtain tok ca where
    rest: "hashed_globals_loop rec h e f hook items (dict_set hg name tok) ca = Some (Inr hg', c')"
    by (auto split: option.splits sum.splits)
  from Cons.IH [OF rest dict_set_distinct [OF Cons.prems(2)]] show ?case .
qed

lemma hashed_globals_of_distinct:
  assumes "hashed_globals_of rec h e f hook c = Some (Inr hg, c')"
  shows "distinct (map fst hg)"
proof -
  from assms have u: "cv_unbound (getclosurevars e f) = {}"
    by (auto simp: hashed_globals_of_def Let_def split: if_splits)
  with assms have "hashed_globals_loop rec h e f hook (items_of e f) [] c = Some (Inr hg, c')"
    by (simp add: hashed_globals_of_items)
  from loop_distinct [OF this] show ?thesis by simp
qed

text \<open>The token of a value of the closure whose name is not read as a global.\<close>

lemma nonlocal_token:
  assumes hg: "hashed_globals_of rec h e f hook c = Some (Inr hg, c')"
    and nl: "(n, v) \<in> set (cv_nonlocals (getclosurevars e f))"
    and ng: "\<not> (n \<in> code_names (fn_code (function_objects e f))
                \<and> fn_globals (function_objects e f) n \<noteq> None)"
  shows "\<exists>tok ca cb. map_of hg n = Some tok \<and> hash_global rec h e f hook v ca = Some (Inr tok, cb)"
proof -
  let ?NL = "cv_nonlocals (getclosurevars e f)"
  let ?G = "cv_globals (getclosurevars e f)"
  from hg have u: "cv_unbound (getclosurevars e f) = {}"
    by (auto simp: hashed_globals_of_def Let_def split: if_splits)
  with hg have loop: "hashed_globals_loop rec h e f hook (?NL @ ?G) [] c = Some (Inr hg, c')"
    by (simp add: hashed_globals_of_items items_of_def Let_def)
  from ng have nG: "n \<notin> fst ` set ?G"
    by (auto simp: getclosurevars_globals(2))
  from nl split_distinct_keys [OF getclosurevars_nonlocals_distinct, of n v e f]
  obtain xs ys where NL: "?NL = xs @ (n, v) # ys" and n: "n \<notin> fst ` set ys" by blast
  from n nG have n': "n \<notin> fst ` set (ys @ ?G)" by auto
  from loop NL have "hashed_globals_loop rec h e f hook (xs @ (n, v) # (ys @ ?G)) [] c
                      = Some (Inr hg, c')"
    by simp
  from loop_last [OF this n'] obtain tok ca cb where
    "(n, tok) \<in> set hg" and g: "hash_global rec h e f hook v ca = Some (Inr tok, cb)"
    by blast
  with hashed_globals_of_distinct [OF hg] have "map_of hg n = Some tok" by simp
  with g show ?thesis by blast
qed

lemma insert_sorted_distinct:
  "insert_sorted x ys = Inr zs \<Longrightarrow> distinct ys \<Longrightarrow> x \<notin> set ys \<Longrightarrow> distinct zs"
proof (induction ys arbitrary: zs)
  case Nil
  then show ?case by auto
next
  case (Cons y ys)
  show ?case
  proof (cases "py_less x y = Some True")
    case True
    with Cons.prems show ?thesis
      by (auto simp: insert_sorted_Cons simp del: insert_sorted.simps)
  next
    case False
    with Cons.prems(1) obtain zs' where zs': "insert_sorted x ys = Inr zs'" and zs: "zs = y # zs'"
      by (auto simp: insert_sorted_Cons simp del: insert_sorted.simps split: if_splits sum.splits)
    from Cons.IH [OF zs'] Cons.prems have "distinct zs'" by simp
    with insert_sorted_set [OF zs'] zs Cons.prems show ?thesis by auto
  qed
qed

lemma sorted_into_distinct:
  "sorted_into acc xs = Inr zs \<Longrightarrow> distinct acc \<Longrightarrow> distinct xs \<Longrightarrow>
   set acc \<inter> set xs = {} \<Longrightarrow> distinct zs"
proof (induction xs arbitrary: acc)
  case Nil
  then show ?case by simp
next
  case (Cons x xs)
  then obtain acc' where a: "insert_sorted x acc = Inr acc'" and r: "sorted_into acc' xs = Inr zs"
    by (auto split: sum.splits)
  from insert_sorted_distinct [OF a] Cons.prems have "distinct acc'" by simp
  moreover from insert_sorted_set [OF a] Cons.prems have "set acc' \<inter> set xs = {}" by auto
  ultimately show ?case using Cons.IH [OF r] Cons.prems by simp
qed

lemma sorted_py_distinct:
  "sorted_py xs = Inr zs \<Longrightarrow> distinct xs \<Longrightarrow> distinct zs"
  using sorted_into_distinct [of "[]" xs zs] by (simp add: sorted_py_def)

lemma map_fst_str_items: "map fst (str_items d) = map VStr (map fst d)"
  by (simp add: str_items_def case_prod_unfold)

lemma spec_text_differs:
  assumes inj: "inj (repr_str h)"
    and d: "distinct (map fst hg1)"
    and keys: "map fst hg1 = map fst hg2"
    and x1: "map_of hg1 x = Some t1" and x2: "map_of hg2 x = Some t2" and ne: "t1 \<noteq> t2"
    and rest: "\<And>k. k \<noteq> x \<Longrightarrow> map_of hg1 k = map_of hg2 k"
    and s1: "repr_hashable h (spec_dict a hg1) None = Inr s1"
    and s2: "repr_hashable h (spec_dict a hg2) None = Inr s2"
  shows "s1 \<noteq> s2"
proof -
  have "\<forall>y \<in> set (map fst (str_items hg1)). is_str y"
    by (auto simp: str_items_def)
  from sorted_py_str [OF this] obtain ks where ks: "sorted_py (map fst (str_items hg1)) = Inr ks" ..
  with keys have ks': "sorted_py (map fst (str_items hg2)) = Inr ks"
    by (simp add: map_fst_str_items)
  from d have "distinct (map fst (str_items hg1))"
    by (simp add: map_fst_str_items distinct_map inj_on_def)
  from sorted_py_distinct [OF ks this] have dks: "distinct ks" .
  from x1 have "x \<in> set (map fst hg1)"
    by (metis map_of_eq_None_iff option.distinct(1) set_map)
  with sorted_py_set [OF ks] have "VStr x \<in> set ks"
    by (force simp: map_fst_str_items)
  from split_list [OF this] obtain P S where PS: "ks = P @ VStr x # S" by blast
  with dks have nx: "VStr x \<notin> set P \<union> set S" by auto
  let ?F = "\<lambda>hg k. repr h k @ '': '' @ repr h (the (map_of (str_items hg) k))"
  have Fx: "?F hg1 (VStr x) \<noteq> ?F hg2 (VStr x)"
    using x1 x2 ne inj by (simp add: map_of_str_items_VStr inj_eq)
  have Fr: "?F hg1 k = ?F hg2 k" if "k \<in> set P \<union> set S" for k
  proof -
    from that PS sorted_py_set [OF ks] have "k \<in> set (map fst (str_items hg1))" by auto
    then obtain k' where k': "k = VStr k'" by (auto simp: map_fst_str_items)
    with that nx have "k' \<noteq> x" by auto
    from rest [OF this] k' show ?thesis by (simp add: map_of_str_items_VStr)
  qed
  have "join '', '' (map (?F hg1) ks) \<noteq> join '', '' (map (?F hg2) ks)"
    unfolding PS
    by (rule join_differs [where F = "?F hg1" and G = "?F hg2" and k = "VStr x", OF Fx Fr])
  moreover have "s1 = ''{'' @ repr_str h ''ast_code'' @ '': '' @ repr_str h a @ '', '' @
           repr_str h ''globals'' @ '': '' @ ''{'' @ join '', '' (map (?F hg1) ks) @ ''}'' @ ''}''"
    using s1 by (simp add: repr_hashable_spec_dict [OF ks] comp_def)
  moreover have "s2 = ''{'' @ repr_str h ''ast_code'' @ '': '' @ repr_str h a @ '', '' @
           repr_str h ''globals'' @ '': '' @ ''{'' @ join '', '' (map (?F hg2) ks) @ ''}'' @ ''}''"
    using s2 by (simp add: repr_hashable_spec_dict [OF ks'] comp_def)
  ultimately show ?thesis by simp
qed

section \<open>Unbound names\<close>

text \<open>
  Claim C7. Let a function that is not in the cache read a name (in its own code or in a
  code object nested in it) that neither its module globals nor the builtins bind; names
  bound locally or in an enclosing scope are not among the names of a code object. Then
  \<^verbatim>\<open>hash_function\<close> returns no identity and raises an exception that is not a
  \<^verbatim>\<open>CodehashError\<close>, and it is the \<^verbatim>\<open>AssertionError\<close> of
  \<^verbatim>\<open>assert not closure_vars.unbound\<close> whenever the normalizer, which runs first, has
  accepted the source of the function. The cache is left as it was.
\<close>

theorem unbound_name_raises_AssertionError:
  assumes "c func = None"
    and "name \<in> code_names (fn_code (function_objects e func))"
    and "fn_globals (function_objects e func) name = None"
    and "fn_builtins (function_objects e func) name = None"
  shows "\<exists>err. hash_function (Suc n) h e c func hook = Some (Inl err, c)
           \<and> (\<forall>x. err \<noteq> CodehashError x)
           \<and> (\<forall>a. ast_code_of h e func = Inr a \<longrightarrow> err = AssertionError)"
proof -
  have "name \<in> cv_unbound (getclosurevars e func)"
    using assms(2-4) by (simp add: getclosurevars_def Let_def walk_codes_unbound)
  then have unbound: "cv_unbound (getclosurevars e func) \<noteq> {}"
    by blast
  show ?thesis
  proof (cases "ast_code_of h e func")
    case (Inl err)
    with assms(1) ast_code_of_error [OF Inl] show ?thesis by simp
  next
    case (Inr a)
    with assms(1) unbound show ?thesis
      by (simp add: hashed_globals_of_def Let_def)
  qed
qed

theorem unbound_name_raises_AssertionError_witness:
  "hash_function (Suc 0) example_host unbound_env Map.empty 0 None =
     Some (Inl AssertionError, Map.empty)"
proof -
  have a: "\<exists>a. ast_code_of example_host unbound_env 0 = Inr a"
    by (simp add: unbound_env_def example_defs code_defs)
  have n: "''x'' \<in> code_names (fn_code (function_objects unbound_env 0))"
    by (simp add: unbound_env_def plain_func_def)
  have g: "fn_globals (function_objects unbound_env 0) ''x'' = None"
    by (simp add: unbound_env_def plain_func_def)
  have b: "fn_builtins (function_objects unbound_env 0) ''x'' = None"
    by (simp add: unbound_env_def plain_func_def)
  from unbound_name_raises_AssertionError
         [where c = Map.empty and h = example_host and n = 0 and hook = None, OF _ n g b] a
  show ?thesis by auto
qed

section \<open>Determinism\<close>

text \<open>
  Claim C1. When \<^verbatim>\<open>hash_function\<close> has returned an identity, every later call for the
  same function returns the same identity, from the cache that the call left or from any
  cache that contains it (calls only add entries to the cache). Without the cache: two
  runs of the computation from the empty cache, on the same function, hook, interpreter
  state and primitives, give the same result and the same cache, whatever call depth each
  run was granted.
\<close>

theorem hash_function_deterministic:
  "(hash_function n h e c func hook = Some (Inr d, c') \<and> c' \<subseteq>\<^sub>m c'' \<longrightarrow>
      hash_function (Suc m) h' e' c'' func hook' = Some (Inr d, c''))
   \<and> (hash_function n1 h e Map.empty func hook = Some r1 \<and>
      hash_function n2 h e Map.empty func hook = Some r2 \<longrightarrow> r1 = r2)"
proof (intro conjI impI)
  assume a: "hash_function n h e c func hook = Some (Inr d, c') \<and> c' \<subseteq>\<^sub>m c''"
  then have "c' func = Some d"
    using hash_function_cached [of n h e c func hook d c'] by blast
  with a have "c'' func = Some d"
    by (auto simp: map_le_def dom_def)
  then show "hash_function (Suc m) h' e' c'' func hook' = Some (Inr d, c'')" by simp
next
  assume a: "hash_function n1 h e Map.empty func hook = Some r1 \<and>
      hash_function n2 h e Map.empty func hook = Some r2"
  then have "hash_function (max n1 n2) h e Map.empty func hook = Some r1"
    and "hash_function (max n1 n2) h e Map.empty func hook = Some r2"
    using hash_function_fuel_le [of n1 "max n1 n2" h e Map.empty func hook r1]
      hash_function_fuel_le [of n2 "max n1 n2" h e Map.empty func hook r2]
    by simp_all
  then show "r1 = r2" by simp
qed

theorem hash_function_deterministic_witness:
  "\<exists>d c'. hash_function (Suc 0) example_host hook_env Map.empty 1 (Some example_hook)
            = Some (Inr d, c')
        \<and> hash_function (Suc 0) example_host hook_env c' 1 None = Some (Inr d, c')
        \<and> hash_function (Suc (Suc 0)) example_host hook_env Map.empty 1 (Some example_hook)
            = Some (Inr d, c')"
proof -
  obtain d c' where first:
    "hash_function (Suc 0) example_host hook_env Map.empty 1 (Some example_hook) = Some (Inr d, c')"
    by (simp add: hook_env_def hook_globals_def example_hook_def example_defs code_defs)
  obtain r where deeper:
    "hash_function (Suc (Suc 0)) example_host hook_env Map.empty 1 (Some example_hook) = Some r"
    by (simp add: hook_env_def hook_globals_def example_hook_def example_defs code_defs)
  note det = hash_function_deterministic
    [where n = "Suc 0" and h = example_host and e = hook_env and c = Map.empty and func = 1
       and hook = "Some example_hook" and d = d and c' = c' and c'' = c' and m = 0
       and h' = example_host
       and e' = hook_env and hook' = None and ?n1.0 = "Suc 0" and ?n2.0 = "Suc (Suc 0)"
       and ?r1.0 = "(Inr d, c')" and ?r2.0 = r]
  from det first have again: "hash_function (Suc 0) example_host hook_env c' 1 None = Some (Inr d, c')"
    by (simp del: hash_function.simps)
  from det first deeper have "r = (Inr d, c')"
    by (simp del: hash_function.simps)
  with first again deeper show ?thesis by blast
qed

section \<open>Decorators\<close>

text \<open>
  Claim C2. The claim fails for a decorator that takes more than one line.
  \<^verbatim>\<open>ast_code_of\<close> drops the leading lines that begin with \<^verbatim>\<open>@\<close>; of the decorator
  \<^verbatim>\<open>@decorator(\<close>, \<^verbatim>\<open>    1\<close>, \<^verbatim>\<open>)\<close> it drops the first line only and hands the rest, which
  begins with an indented line, to the parser. Whenever the parser rejects that text, as
  the parser of the language does, \<^verbatim>\<open>hash_function\<close> of the decorated function raises
  \<^verbatim>\<open>SyntaxError\<close> and returns no identity, so it cannot return the identity of the
  undecorated function.
\<close>

theorem multiline_decorator_raises_SyntaxError:
  assumes "parse h src_decorated_rest = None"
    and "fn_source (function_objects e g) = Some src_decorated"
    and "c g = None"
  shows "hash_function (Suc n) h e c g hook = Some (Inl SyntaxError, c)"
proof -
  have "drop_decorators (split CHR 0x0A src_decorated) =
          Inr [''    1'', '')'', ''def g():'', ''    return 1'', []]"
    by (simp add: src_decorated_def source_def)
  moreover have "join [CHR 0x0A] [''    1'', '')'', ''def g():'', ''    return 1'', []]
                   = src_decorated_rest"
    by (simp add: src_decorated_rest_def source_def)
  ultimately have "ast_code_of h e g = Inl SyntaxError"
    using assms(1,2) by (simp add: ast_code_of_def)
  with assms(3) show ?thesis by simp
qed

theorem multiline_decorator_raises_SyntaxError_witness:
  "hash_function (Suc 0) example_host decorated_env Map.empty 0 None =
     Some (Inl SyntaxError, Map.empty)"
proof -
  have p: "parse example_host src_decorated_rest = None"
    by (simp add: example_defs)
  have s: "fn_source (function_objects decorated_env 0) = Some src_decorated"
    by (simp add: decorated_env_def plain_func_def)
  have m: "Map.empty (0::fid) = None"
    by simp
  from multiline_decorator_raises_SyntaxError [OF p s m] show ?thesis .
qed

section \<open>Functions that depend on themselves\<close>

lemma mutual_ast: "\<exists>a. ast_code_of example_host mutual_env i = Inr a"
  by (simp add: mutual_env_def example_defs code_defs)

lemma mutual_step:
  "hashed_globals_of rec example_host mutual_env i hook Map.empty =
     (case rec Map.empty (if i = 0 then 1 else 0) of
        None \<Rightarrow> None
      | Some (Inl err, c') \<Rightarrow>
          Some (Inl (reraise i (if i = 0 then ''g'' else ''f'')
                       (VFunc (if i = 0 then 1 else 0)) err), c')
      | Some (Inr hashid, c') \<Rightarrow>
          Some (Inr [(if i = 0 then ''g'' else ''f'', ''function:'' @ hashid)], c'))"
  by (simp add: mutual_env_def mutual_globals_def example_defs code_defs
           split: option.splits sum.splits prod.splits)

text \<open>
  Claim C3. The claim fails where a function depends on itself through another function.
  For \<^verbatim>\<open>def f(): return g()\<close> and \<^verbatim>\<open>def g(): return f()\<close>, globals of a module
  without version, the test \<^verbatim>\<open>obj is not func\<close> never finds the function itself, neither
  function reaches the cache before the other one is hashed, and the calls of
  \<^verbatim>\<open>hash_function\<close> nest without end: no depth of calls is enough for a result, from the
  empty cache, for either function and with any hook.
\<close>

theorem mutual_recursion_never_returns:
  "hash_function n example_host mutual_env Map.empty i hook = None"
proof (induction n arbitrary: i hook)
  case 0
  show ?case by simp
next
  case (Suc n)
  obtain a where "ast_code_of example_host mutual_env i = Inr a"
    using mutual_ast by blast
  then show ?case
    by (simp add: mutual_step Suc.IH)
qed

section \<open>Captured values that change\<close>

text \<open>
  Claim C4, as stated, fails: the cache is keyed by the function object and is read before
  anything else. For \<^verbatim>\<open>def f(): return o, os, int\<close> with \<^verbatim>\<open>o = {'a': 1}\<close>, the identity is
  computed and cached; after \<^verbatim>\<open>o['a'] = 2\<close> the second computation for the same function
  object returns the cached identity, although the computation without the cache gives
  another one.
\<close>

theorem cached_identity_ignores_changed_container:
  "hash_function (Suc 0) example_host (deps_env dict_after builtin_int)
      (snd (the (hash_function (Suc 0) example_host (deps_env dict_before builtin_int)
                   Map.empty 0 None))) 0 None
     = hash_function (Suc 0) example_host (deps_env dict_before builtin_int) Map.empty 0 None
   \<and> map_option (isl \<circ> fst)
         (hash_function (Suc 0) example_host (deps_env dict_before builtin_int) Map.empty 0 None)
       = Some False
   \<and> map_option fst
         (hash_function (Suc 0) example_host (deps_env dict_after builtin_int) Map.empty 0 None)
       \<noteq> map_option fst
         (hash_function (Suc 0) example_host (deps_env dict_before builtin_int) Map.empty 0 None)"
proof -
  obtain d where first:
    "hash_function (Suc 0) example_host (deps_env dict_before builtin_int) Map.empty 0 None
       = Some (Inr d, [0 \<mapsto> d])"
    by (simp add: deps_env_def example_defs code_defs)
  have second:
    "hash_function (Suc 0) example_host (deps_env dict_after builtin_int) [0 \<mapsto> d] 0 None
       = Some (Inr d, [0 \<mapsto> d])"
    by simp
  have differ:
    "map_option fst
         (hash_function (Suc 0) example_host (deps_env dict_after builtin_int) Map.empty 0 None)
       \<noteq> map_option fst
         (hash_function (Suc 0) example_host (deps_env dict_before builtin_int) Map.empty 0 None)"
    by (simp add: deps_env_def example_defs code_defs)
  from first second differ show ?thesis
    by (simp del: hash_function.simps)
qed

text \<open>
  Claim C4, amended. Take two computations, of \<open>f\<close> in the state \<open>ea\<close> and of \<open>g\<close> in the
  state \<open>eb\<close> (the same function after the change, or one defined anew as in
  \<^verbatim>\<open>test_constant\<close>), neither function being in the cache before or after its dependencies
  are hashed. Let both have the same code shape and close over the container under the
  name \<open>x\<close>, which the code does not read as a module global; let the serializer give
  different results for the two contents of the container, and let all other names have
  the same tokens in both dependency maps. If the digest and \<^verbatim>\<open>repr\<close> of strings are
  injective, both computations return an identity, and the two identities differ.
\<close>

theorem changed_container_changes_identity:
  assumes "inj (sha1_hexdigest h)" and "inj (repr_str h)"
    and miss: "ca f = None" "cb g = None"
    and ast: "ast_code_of h ea f = Inr a" "ast_code_of h eb g = Inr a"
    and hga: "hashed_globals_of (\<lambda>c k. hash_function n h ea c k None) h ea f hooka ca
                = Some (Inr hga, ca')"
    and hgb: "hashed_globals_of (\<lambda>c k. hash_function m h eb c k None) h eb g hookb cb
                = Some (Inr hgb, cb')"
    and fresh: "ca' f = None" "cb' g = None"
    and cell: "(x, va) \<in> set (cv_nonlocals (getclosurevars ea f))"
              "(x, vb) \<in> set (cv_nonlocals (getclosurevars eb g))"
    and not_global:
      "\<not> (x \<in> code_names (fn_code (function_objects ea f))
           \<and> fn_globals (function_objects ea f) x \<noteq> None)"
      "\<not> (x \<in> code_names (fn_code (function_objects eb g))
           \<and> fn_globals (function_objects eb g) x \<noteq> None)"
    and generic: "module_and_fullname ea va = None" "module_and_fullname eb vb = None"
    and changed: "repr_hashable h va hooka \<noteq> repr_hashable h vb hookb"
    and others: "map fst hga = map fst hgb" "\<forall>k. k \<noteq> x \<longrightarrow> map_of hga k = map_of hgb k"
  shows "\<exists>da db. hash_function (Suc n) h ea ca f hooka = Some (Inr da, ca'(f \<mapsto> da))
               \<and> hash_function (Suc m) h eb cb g hookb = Some (Inr db, cb'(g \<mapsto> db))
               \<and> da \<noteq> db"
proof -
  obtain sa where sa: "repr_hashable h (spec_dict a hga) None = Inr sa"
    using repr_hashable_spec_dict_ok by blast
  obtain sb where sb: "repr_hashable h (spec_dict a hgb) None = Inr sb"
    using repr_hashable_spec_dict_ok by blast
  have ra: "hash_function (Suc n) h ea ca f hooka =
              Some (Inr (hash_text h sa), ca'(f \<mapsto> hash_text h sa))"
    unfolding hash_function_miss [where c = ca and f = f, OF miss(1) ast(1)]
    by (simp add: hga sa fresh del: hash_function.simps)
  have rb: "hash_function (Suc m) h eb cb g hookb =
              Some (Inr (hash_text h sb), cb'(g \<mapsto> hash_text h sb))"
    unfolding hash_function_miss [where c = cb and f = g, OF miss(2) ast(2)]
    by (simp add: hgb sb fresh del: hash_function.simps)
  from nonlocal_token [OF hga cell(1) not_global(1)]
  obtain tokta cta dta where
    "map_of hga x = Some tokta" and "hash_global (\<lambda>c k. hash_function n h ea c k None) h ea f hooka va cta
       = Some (Inr tokta, dta)"
    by blast
  with generic(1) obtain ta where ta: "repr_hashable h va hooka = Inr ta"
    and xa: "map_of hga x = Some (''composite:'' @ hash_text h ta)"
    by (cases "repr_hashable h va hooka") (auto simp: hash_global_generic)
  from nonlocal_token [OF hgb cell(2) not_global(2)]
  obtain toktb ctb dtb where
    "map_of hgb x = Some toktb" and "hash_global (\<lambda>c k. hash_function m h eb c k None) h eb g hookb vb ctb
       = Some (Inr toktb, dtb)"
    by blast
  with generic(2) obtain tb where tb: "repr_hashable h vb hookb = Inr tb"
    and xb: "map_of hgb x = Some (''composite:'' @ hash_text h tb)"
    by (cases "repr_hashable h vb hookb") (auto simp: hash_global_generic)
  from changed ta tb have "ta \<noteq> tb" by simp
  with assms(1) have tok: "''composite:'' @ hash_text h ta \<noteq> ''composite:'' @ hash_text h tb"
    by (simp add: hash_text_def inj_eq)
  have "sa \<noteq> sb"
    using others(2)
    by (intro spec_text_differs [OF assms(2) hashed_globals_of_distinct [OF hga] others(1)
                xa xb tok _ sa sb]) simp
  with assms(1) have "hash_text h sa \<noteq> hash_text h sb"
    by (simp add: hash_text_def inj_eq)
  with ra rb show ?thesis by blast
qed

theorem changed_container_changes_identity_witness:
  "\<exists>da db. hash_function (Suc 0) example_host (deps_env dict_before builtin_int) Map.empty 0 None
               = Some (Inr da, [0 \<mapsto> da])
          \<and> hash_function (Suc 0) example_host (deps_env dict_after builtin_int) Map.empty 0 None
               = Some (Inr db, [0 \<mapsto> db])
          \<and> da \<noteq> db"
proof -
  let ?ea = "deps_env dict_before builtin_int" and ?eb = "deps_env dict_after builtin_int"
  have i1: "inj (sha1_hexdigest example_host)" and i2: "inj (repr_str example_host)"
    by (simp_all add: example_host_def inj_def)
  have m: "Map.empty (0::fid) = None"
    by simp
  obtain a where a: "ast_code_of example_host ?ea 0 = Inr a"
    by (simp add: deps_env_def example_defs code_defs)
  then have a': "ast_code_of example_host ?eb 0 = Inr a"
    by (simp add: deps_env_def example_defs code_defs)
  obtain ta where hga:
    "hashed_globals_of (\<lambda>c k. hash_function 0 example_host ?ea c k None) example_host ?ea 0 None
       Map.empty = Some (Inr [(''o'', ta), (''os'', ''os(stdlib)'')], Map.empty)"
    by (simp add: deps_env_def example_defs code_defs)
  obtain tb where hgb:
    "hashed_globals_of (\<lambda>c k. hash_function 0 example_host ?eb c k None) example_host ?eb 0 None
       Map.empty = Some (Inr [(''o'', tb), (''os'', ''os(stdlib)'')], Map.empty)"
    by (simp add: deps_env_def example_defs code_defs)
  have ca: "(''o'', dict_before) \<in> set (cv_nonlocals (getclosurevars ?ea 0))"
    and cb: "(''o'', dict_after) \<in> set (cv_nonlocals (getclosurevars ?eb 0))"
    by (simp_all add: deps_env_def example_defs code_defs)
  have na: "\<not> (''o'' \<in> code_names (fn_code (function_objects ?ea 0))
                \<and> fn_globals (function_objects ?ea 0) ''o'' \<noteq> None)"
    and nb: "\<not> (''o'' \<in> code_names (fn_code (function_objects ?eb 0))
                \<and> fn_globals (function_objects ?eb 0) ''o'' \<noteq> None)"
    by (simp_all add: deps_env_def example_defs)
  have ga: "module_and_fullname ?ea dict_before = None"
    and gb: "module_and_fullname ?eb dict_after = None"
    by (simp_all add: dict_before_def dict_after_def)
  have ch: "repr_hashable example_host dict_before None \<noteq> repr_hashable example_host dict_after None"
    by (simp add: example_defs code_defs)
  have o1: "map fst [(''o'', ta), (''os'', ''os(stdlib)'')] = map fst [(''o'', tb), (''os'', ''os(stdlib)'')]"
    and o2: "\<forall>k. k \<noteq> ''o'' \<longrightarrow> map_of [(''o'', ta), (''os'', ''os(stdlib)'')] k
                 = map_of [(''o'', tb), (''os'', ''os(stdlib)'')] k"
    by simp_all
  from changed_container_changes_identity
         [OF i1 i2 m m a a' hga hgb m m ca cb na nb ga gb ch o1 o2]
  show ?thesis by simp
qed

section \<open>What the dependency map contains\<close>

text \<open>
  Claim C5, as stated, fails: \<^verbatim>\<open>hashed_globals_of\<close> iterates over the nonlocals and the
  globals that the resolver returns, and not over the builtins. For
  \<^verbatim>\<open>def f(): return o, os, int\<close> the resolver reports the builtin \<^verbatim>\<open>int\<close>, the loop runs
  over \<^verbatim>\<open>o\<close> and \<^verbatim>\<open>os\<close> only, and the identity is the same whatever value the builtins
  give to \<^verbatim>\<open>int\<close>.
\<close>

theorem builtin_value_not_hashed:
  "cv_builtins (getclosurevars (deps_env example_list (VInt 1)) 0) = [(''int'', VInt 1)]
   \<and> items_of (deps_env example_list (VInt 1)) 0 = [(''o'', example_list), (''os'', VModule os_module)]
   \<and> hash_function (Suc 0) example_host (deps_env example_list (VInt 1)) Map.empty 0 None
       = hash_function (Suc 0) example_host (deps_env example_list (VInt 2)) Map.empty 0 None
   \<and> map_option (isl \<circ> fst)
         (hash_function (Suc 0) example_host (deps_env example_list (VInt 1)) Map.empty 0 None)
       = Some False"
proof (intro conjI)
  show "cv_builtins (getclosurevars (deps_env example_list (VInt 1)) 0) = [(''int'', VInt 1)]"
    by (simp add: deps_env_def example_defs code_defs)
  show "items_of (deps_env example_list (VInt 1)) 0 = [(''o'', example_list), (''os'', VModule os_module)]"
    by (simp add: deps_env_def example_defs code_defs)
  show "hash_function (Suc 0) example_host (deps_env example_list (VInt 1)) Map.empty 0 None
       = hash_function (Suc 0) example_host (deps_env example_list (VInt 2)) Map.empty 0 None"
    by (simp add: deps_env_def example_defs code_defs)
  show "map_option (isl \<circ> fst)
         (hash_function (Suc 0) example_host (deps_env example_list (VInt 1)) Map.empty 0 None)
       = Some False"
    by (simp add: deps_env_def example_defs code_defs)
qed

text \<open>
  Claim C5, amended. When \<^verbatim>\<open>hashed_globals_of\<close> succeeds, the names of the dependency map
  are the free variables that have a closure cell and the names, of the code object of
  the function or of one nested in it, that the module globals bind, and no others.
  Every value that such a name has in the module globals has its token in the map, as
  the classifier computes it from the value; so has every value of a closure cell, unless
  the code also reads a module global of the same name.
\<close>

theorem dependency_map_of_closure_and_globals:
  assumes "hashed_globals_of rec h e f hook c = Some (Inr hg, c')"
  shows "fst ` set hg =
           set (take (length (fn_closure (function_objects e f)))
                  (co_freevars (fn_code (function_objects e f))))
           \<union> {n \<in> code_names (fn_code (function_objects e f)).
                fn_globals (function_objects e f) n \<noteq> None}
       \<and> (\<forall>n v. n \<in> code_names (fn_code (function_objects e f))
                \<and> fn_globals (function_objects e f) n = Some v \<longrightarrow>
              (\<exists>tok ca cb. (n, tok) \<in> set hg
                 \<and> hash_global rec h e f hook v ca = Some (Inr tok, cb)))
       \<and> (\<forall>n v. (n, v) \<in> set (cv_nonlocals (getclosurevars e f))
                \<and> \<not> (n \<in> code_names (fn_code (function_objects e f))
                       \<and> fn_globals (function_objects e f) n \<noteq> None) \<longrightarrow>
              (\<exists>tok ca cb. (n, tok) \<in> set hg
                 \<and> hash_global rec h e f hook v ca = Some (Inr tok, cb)))"
proof -
  let ?NL = "cv_nonlocals (getclosurevars e f)"
  let ?G = "cv_globals (getclosurevars e f)"
  from assms have u: "cv_unbound (getclosurevars e f) = {}"
    by (auto simp: hashed_globals_of_def Let_def split: if_splits)
  with assms have loop: "hashed_globals_loop rec h e f hook (?NL @ ?G) [] c = Some (Inr hg, c')"
    by (simp add: hashed_globals_of_items items_of_def Let_def)
  have keys: "fst ` set hg =
           set (take (length (fn_closure (function_objects e f)))
                  (co_freevars (fn_code (function_objects e f))))
           \<union> {n \<in> code_names (fn_code (function_objects e f)).
                fn_globals (function_objects e f) n \<noteq> None}"
    using loop_keys [OF loop] items_of_keys [of e f]
    by (simp add: items_of_def Let_def)
  have globals: "\<exists>tok ca cb. (n, tok) \<in> set hg
                 \<and> hash_global rec h e f hook v ca = Some (Inr tok, cb)"
    if "n \<in> code_names (fn_code (function_objects e f))
        \<and> fn_globals (function_objects e f) n = Some v" for n v
  proof -
    from that have "(n, v) \<in> set ?G" by (simp add: getclosurevars_globals(2))
    from split_distinct_keys [OF getclosurevars_globals(1) this]
    obtain xs ys where G: "?G = xs @ (n, v) # ys" and n: "n \<notin> fst ` set ys" by blast
    from loop G have "hashed_globals_loop rec h e f hook ((?NL @ xs) @ (n, v) # ys) [] c
                        = Some (Inr hg, c')"
      by simp
    from loop_last [OF this n] show ?thesis .
  qed
  have nonlocals: "\<exists>tok ca cb. (n, tok) \<in> set hg
                 \<and> hash_global rec h e f hook v ca = Some (Inr tok, cb)"
    if "(n, v) \<in> set ?NL
        \<and> \<not> (n \<in> code_names (fn_code (function_objects e f))
               \<and> fn_globals (function_objects e f) n \<noteq> None)" for n v
  proof -
    from that have nG: "n \<notin> fst ` set ?G"
      by (auto simp: getclosurevars_globals(2))
    from that split_distinct_keys [OF getclosurevars_nonlocals_distinct, of n v e f]
    obtain xs ys where NL: "?NL = xs @ (n, v) # ys" and n: "n \<notin> fst ` set ys" by blast
    from n nG have n': "n \<notin> fst ` set (ys @ ?G)" by auto
    from loop NL have "hashed_globals_loop rec h e f hook (xs @ (n, v) # (ys @ ?G)) [] c
                        = Some (Inr hg, c')"
      by simp
    from loop_last [OF this n'] show ?thesis .
  qed
  from keys globals nonlocals show ?thesis by blast
qed

theorem dependency_map_of_closure_and_globals_witness:
  "\<exists>tok. hashed_globals_of (\<lambda>c g. None) example_host (deps_env example_list (VInt 1)) 0 None
            Map.empty = Some (Inr [(''o'', tok), (''os'', ''os(stdlib)'')], Map.empty)
         \<and> fst ` set [(''o'', tok), (''os'', ''os(stdlib)'')] = {''o'', ''os''}
         \<and> hash_global (\<lambda>c g. None) example_host (deps_env example_list (VInt 1)) 0 None
              example_list Map.empty = Some (Inr tok, Map.empty)"
proof -
  let ?e = "deps_env example_list (VInt 1)"
  obtain tok where hg:
    "hashed_globals_of (\<lambda>c g. None) example_host ?e 0 None Map.empty
       = Some (Inr [(''o'', tok), (''os'', ''os(stdlib)'')], Map.empty)"
    by (simp add: deps_env_def example_defs code_defs)
  have tok: "hash_global (\<lambda>c g. None) example_host ?e 0 None example_list Map.empty
               = Some (Inr tok, Map.empty)"
    using hg by (simp add: deps_env_def example_defs code_defs)
  have names: "code_names (fn_code (function_objects ?e 0)) = {''os'', ''int''}"
    by (simp add: deps_env_def example_defs)
  have g: "fn_globals (function_objects ?e 0) = [''os'' \<mapsto> VModule os_module]"
    by (simp add: deps_env_def example_defs)
  have "{n \<in> code_names (fn_code (function_objects ?e 0)).
           fn_globals (function_objects ?e 0) n \<noteq> None} = {''os''}"
    unfolding names g by auto
  moreover have "set (take (length (fn_closure (function_objects ?e 0)))
                  (co_freevars (fn_code (function_objects ?e 0)))) = {''o''}"
    by (simp add: deps_env_def example_defs)
  ultimately have "fst ` set [(''o'', tok), (''os'', ''os(stdlib)'')] = {''o'', ''os''}"
    using dependency_map_of_closure_and_globals [OF hg] by simp
  with hg tok show ?thesis by blast
qed

section \<open>Values that cannot be hashed\<close>

text \<open>
  Claim C6. Let \<open>f\<close>, not in the cache, with a source that normalizes and all names bound,
  depend under \<open>name\<close> on an object that is no scalar, container, module, class or function
  and has no \<^verbatim>\<open>__codehash__\<close>; let the dependencies before it be hashed without failure.
  Then \<^verbatim>\<open>hash_function(f)\<close> raises the \<^verbatim>\<open>CodehashError\<close> that carries \<open>f\<close>, the name and
  the object, and \<open>f\<close> is not in the cache that the call leaves. If a hook returns a token
  for the object and the dependencies after it are hashed without failure, the call with
  that hook, from the cache that the failed call left, returns an identity and stores it.
  An object whose \<^verbatim>\<open>__codehash__\<close> returns a token gets its token with any hook, and with
  none.
\<close>

theorem unhashable_instance_rejected_and_recoverable:
  assumes miss: "c f = None" and ast: "ast_code_of h e f = Inr a"
    and bound: "cv_unbound (getclosurevars e f) = {}"
    and items: "items_of e f = pre @ (name, VObj i None) # post"
    and pre: "hashed_globals_loop (\<lambda>c' g. hash_function n h e c' g None) h e f None pre [] c
                = Some (Inr hg, ca)"
    and hook: "hook (VObj i None) = Some t"
    and post: "hashed_globals_loop (\<lambda>c' g. hash_function n h e c' g None) h e f (Some hook) post
                 (dict_set hg name (''composite:'' @ hash_text h (repr h (VHashed t)))) ca
                = Some (Inr hg', cb)"
  shows "hash_function (Suc n) h e c f None =
           Some (Inl (CodehashError (CannotHash f name (VObj i None))), ca)
       \<and> ca f = None
       \<and> (\<exists>d. hash_function (Suc n) h e ca f (Some hook) = Some (Inr d, cb(f \<mapsto> d)))
       \<and> hash_global rec h e f hook' (VObj i (Some (Some t))) c' =
           Some (Inr (''composite:'' @ hash_text h (repr h (VHashed t))), c')"
proof -
  let ?rec = "\<lambda>c' g. hash_function n h e c' g None"
  have item: "(name, VObj i None) \<in> set (items_of e f)"
    by (simp add: items)
  have generic: "module_and_fullname e (VObj i None) = None"
    by simp
  have fails: "repr_hashable h (VObj i None) None = Inl (CodehashError (Unknown (VObj i None)))"
    by (simp add: repr_hashable_def transform_def)
  have first: "hash_function (Suc n) h e c f None =
                 Some (Inl (CodehashError (CannotHash f name (VObj i None))), ca)"
    unfolding hash_function_miss [where c = c and f = f, OF miss ast]
    using pre
    by (simp add: hashed_globals_of_items [OF bound] items loop_append hash_global_generic fails
             del: hash_function.simps)
  have ca: "ca f = None"
    by (rule loop_cache_success [where P = "\<lambda>x. x f = None", OF _ miss pre])
       (rule unhashable_stays_uncached [OF item generic fails])
  have cb: "cb f = None"
    by (rule loop_cache_success [where P = "\<lambda>x. x f = None", OF _ ca post])
       (rule unhashable_stays_uncached [OF item generic fails])
  have pre': "hashed_globals_loop ?rec h e f (Some hook) pre [] ca = Some (Inr hg, ca)"
    by (rule loop_again [OF pre]) simp
  have accepts: "repr_hashable h (VObj i None) (Some hook) = Inr (repr h (VHashed t))"
    by (simp add: repr_hashable_def transform_def hook)
  have loop: "hashed_globals_loop ?rec h e f (Some hook) (items_of e f) [] ca = Some (Inr hg', cb)"
    using pre' post
    by (simp add: items loop_append hash_global_generic accepts)
  obtain s where s: "repr_hashable h (spec_dict a hg') None = Inr s"
    using repr_hashable_spec_dict_ok by blast
  have second: "hash_function (Suc n) h e ca f (Some hook) =
                  Some (Inr (hash_text h s), cb(f \<mapsto> hash_text h s))"
    unfolding hash_function_miss [where c = ca and f = f, OF ca ast]
    by (simp add: hashed_globals_of_items [OF bound] loop s cb del: hash_function.simps)
  have self: "hash_global rec h e f hook' (VObj i (Some (Some t))) c' =
           Some (Inr (''composite:'' @ hash_text h (repr h (VHashed t))), c')"
    by (cases hook') (simp_all add: hash_global_generic repr_hashable_def transform_def)
  from first ca second self show ?thesis by blast
qed

theorem unhashable_instance_rejected_and_recoverable_witness:
  "hash_function (Suc 0) example_host hook_env Map.empty 1 None =
     Some (Inl (CodehashError (CannotHash 1 ''c'' (VObj 7 None))), Map.empty)
   \<and> (\<exists>d. hash_function (Suc 0) example_host hook_env Map.empty 1 (Some example_hook) =
           Some (Inr d, [1 \<mapsto> d]))"
proof -
  obtain a where a: "ast_code_of example_host hook_env 1 = Inr a"
    by (simp add: hook_env_def example_defs code_defs)
  have u: "cv_unbound (getclosurevars hook_env 1) = {}"
    by (simp add: hook_env_def hook_globals_def example_defs code_defs)
  have i: "items_of hook_env 1 = [] @ (''c'', VObj 7 None) # []"
    by (simp add: hook_env_def hook_globals_def example_defs code_defs)
  have k: "example_hook (VObj 7 None) = Some []"
    by (simp add: example_hook_def)
  have m: "Map.empty (1::fid) = None"
    by simp
  have p: "hashed_globals_loop (\<lambda>c' g. hash_function 0 example_host hook_env c' g None)
             example_host hook_env 1 None [] [] Map.empty = Some (Inr [], Map.empty)"
    by simp
  have q: "hashed_globals_loop (\<lambda>c' g. hash_function 0 example_host hook_env c' g None)
             example_host hook_env 1 (Some example_hook) []
             (dict_set [] ''c'' (''composite:'' @ hash_text example_host (repr example_host (VHashed []))))
             Map.empty
           = Some (Inr (dict_set [] ''c''
                (''composite:'' @ hash_text example_host (repr example_host (VHashed [])))), Map.empty)"
    by simp
  from unhashable_instance_rejected_and_recoverable [OF m a u i p k q]
  show ?thesis by blast
qed

section \<open>Modules as dependencies\<close>

text \<open>
  Claim C8. The claim fails for a module that has no file, such as the built-in module
  \<^verbatim>\<open>sys\<close>: \<^verbatim>\<open>is_stdlib\<close> reads \<^verbatim>\<open>mod.__file__\<close>, and the function
  \<^verbatim>\<open>def f(): sys\<close> gets neither a token for the module nor a \<^verbatim>\<open>CodehashError\<close>, but the
  \<^verbatim>\<open>AttributeError\<close> of that read.
\<close>

theorem module_without_file_raises_AttributeError:
  "hash_function (Suc 0) example_host sys_env Map.empty 0 None =
     Some (Inl AttributeError, Map.empty)"
  by (simp add: sys_env_def example_defs code_defs)

section \<open>Dicts are serialized in the order of their keys\<close>

lemma mc_cases:
  assumes "mutually_comparable K" "x \<in> K" "y \<in> K" "x \<noteq> y"
  shows "(py_less x y = Some True \<and> py_less y x = Some False) \<or> (py_less x y = Some False \<and> py_less y x = Some True)"
  using assms unfolding mutually_comparable_def by blast

lemma mc_trans:
  assumes "mutually_comparable K" "x \<in> K" "y \<in> K" "z \<in> K" "py_less x y = Some True" "py_less y z = Some True"
  shows "py_less x z = Some True"
  using assms unfolding mutually_comparable_def by blast

lemma mc_irrefl:
  assumes "mutually_comparable K" "x \<in> K"
  shows "\<not> py_less x x = Some True"
  using assms unfolding mutually_comparable_def by auto

lemma insert_sorted_sorted:
  assumes mc: "mutually_comparable K" and x: "x \<in> K"
  shows "set ys \<subseteq> K \<Longrightarrow> sorted_wrt (\<lambda>a b. py_less a b = Some True) ys \<Longrightarrow> x \<notin> set ys \<Longrightarrow>
         \<exists>zs. insert_sorted x ys = Inr zs \<and> sorted_wrt (\<lambda>a b. py_less a b = Some True) zs \<and> set zs = insert x (set ys)"
proof (induction ys)
  case Nil
  show ?case by simp
next
  case (Cons y ys)
  from Cons.prems have y: "y \<in> K" and ne: "x \<noteq> y" by auto
  from mc_cases [OF mc x y ne] show ?case
  proof
    assume a: "py_less x y = Some True \<and> py_less y x = Some False"
    have "py_less x z = Some True" if "z \<in> set ys" for z
    proof -
      from that Cons.prems have "z \<in> K" and "py_less y z = Some True" by auto
      with mc_trans [OF mc x y] a show ?thesis by blast
    qed
    with a Cons.prems show ?thesis
      by (auto simp: insert_sorted_Cons simp del: insert_sorted.simps)
  next
    assume a: "py_less x y = Some False \<and> py_less y x = Some True"
    from Cons.IH Cons.prems obtain zs where zs: "insert_sorted x ys = Inr zs"
      "sorted_wrt (\<lambda>a b. py_less a b = Some True) zs" "set zs = insert x (set ys)"
      by auto
    with a Cons.prems have "sorted_wrt (\<lambda>a b. py_less a b = Some True) (y # zs)" by auto
    with a zs show ?thesis
      by (auto simp: insert_sorted_Cons simp del: insert_sorted.simps)
  qed
qed

lemma sorted_into_sorted:
  assumes mc: "mutually_comparable K"
  shows "set acc \<union> set xs \<subseteq> K \<Longrightarrow> sorted_wrt (\<lambda>a b. py_less a b = Some True) acc \<Longrightarrow> distinct xs \<Longrightarrow>
         set acc \<inter> set xs = {} \<Longrightarrow>
         \<exists>zs. sorted_into acc xs = Inr zs \<and> sorted_wrt (\<lambda>a b. py_less a b = Some True) zs \<and> set zs = set acc \<union> set xs"
proof (induction xs arbitrary: acc)
  case Nil
  then show ?case by simp
next
  case (Cons x xs)
  from Cons.prems have "x \<in> K" "set acc \<subseteq> K" "x \<notin> set acc" by auto
  from insert_sorted_sorted [OF mc this(1,2) Cons.prems(2) this(3)]
  obtain acc' where acc': "insert_sorted x acc = Inr acc'" "sorted_wrt (\<lambda>a b. py_less a b = Some True) acc'"
    "set acc' = insert x (set acc)"
    by blast
  with Cons.prems have "set acc' \<union> set xs \<subseteq> K" "distinct xs" "set acc' \<inter> set xs = {}"
    by auto
  from Cons.IH [OF this(1) acc'(2) this(2,3)] acc' show ?case by auto
qed

lemma sorted_unique:
  assumes mc: "mutually_comparable K"
  shows "sorted_wrt (\<lambda>a b. py_less a b = Some True) xs \<Longrightarrow> sorted_wrt (\<lambda>a b. py_less a b = Some True) ys \<Longrightarrow> set xs = set ys \<Longrightarrow> set xs \<subseteq> K \<Longrightarrow> xs = ys"
proof (induction xs arbitrary: ys)
  case Nil
  then show ?case by simp
next
  case (Cons x xs)
  then obtain y ys' where ys: "ys = y # ys'" by (cases ys) auto
  from Cons.prems ys have xK: "x \<in> K" and yK: "y \<in> K" by auto
  have xy: "x = y"
  proof (rule ccontr)
    assume ne: "x \<noteq> y"
    from Cons.prems(3) ys ne have "y \<in> set xs" and "x \<in> set ys'" by auto
    with Cons.prems(1,2) ys have "py_less x y = Some True" and "py_less y x = Some True" by auto
    with mc_cases [OF mc xK yK ne] show False by auto
  qed
  from Cons.prems(1) mc_irrefl [OF mc xK] have "x \<notin> set xs" by auto
  moreover from Cons.prems(2) ys xy mc_irrefl [OF mc xK] have "x \<notin> set ys'" by auto
  ultimately have "set xs = set ys'" using Cons.prems(3) ys xy by auto
  with Cons.IH [of ys'] Cons.prems ys xy show ?case by auto
qed

lemma sorted_py_sorted:
  assumes "mutually_comparable K" "set xs \<subseteq> K" "distinct xs"
  shows "\<exists>zs. sorted_py xs = Inr zs \<and> sorted_wrt (\<lambda>a b. py_less a b = Some True) zs \<and> set zs = set xs"
  using sorted_into_sorted [OF assms(1), of "[]" xs] assms(2,3)
  by (simp add: sorted_py_def)

lemma sorted_py_permutation:
  assumes mc: "mutually_comparable K" and "set xs \<subseteq> K" "distinct xs" "distinct ys" "set xs = set ys"
  shows "sorted_py xs = sorted_py ys"
proof -
  from sorted_py_sorted [OF mc assms(2,3)] obtain zs where
    zs: "sorted_py xs = Inr zs" "sorted_wrt (\<lambda>a b. py_less a b = Some True) zs" "set zs = set xs" by blast
  from assms have "set ys \<subseteq> K" by simp
  from sorted_py_sorted [OF mc this assms(4)] obtain zs' where
    zs': "sorted_py ys = Inr zs'" "sorted_wrt (\<lambda>a b. py_less a b = Some True) zs'" "set zs' = set ys" by blast
  from zs zs' assms have "set zs = set zs'" "set zs \<subseteq> K" by auto
  from sorted_unique [OF mc zs(2) zs'(2) this] zs zs' show ?thesis by simp
qed

text \<open>
  Claim C9. Let two dicts have the same items, each key once, in any two orders, and let
  their keys be mutually comparable. Then the serializer produces the same text for both
  (or fails in the same way on a value), so the token of a dependency with such a value
  is the same; and the keys are rendered in ascending order.
\<close>

theorem dict_serialized_in_key_order:
  assumes "distinct (map fst kvs)" and "distinct (map fst kvs')" and "set kvs = set kvs'"
    and "mutually_comparable (fst ` set kvs)"
  shows "repr_hashable h (VDict kvs) hook = repr_hashable h (VDict kvs') hook
       \<and> hash_global rec h e f hook (VDict kvs) c = hash_global rec h e f hook (VDict kvs') c
       \<and> (\<exists>ks. sorted_py (map fst kvs) = Inr ks
                 \<and> sorted_wrt (\<lambda>a b. py_less a b = Some True) ks \<and> set ks = fst ` set kvs)"
proof -
  from assms(3) have keys: "set (map fst kvs) = set (map fst kvs')" by simp
  have s: "sorted_py (map fst kvs) = sorted_py (map fst kvs')"
    using assms(1,2,4) keys
    by (intro sorted_py_permutation [where K = "fst ` set kvs"]) simp_all
  have m: "map_of kvs = map_of kvs'"
    using assms(1-3) by (simp add: map_of_inject_set)
  have "deep_transform (VDict kvs) t = deep_transform (VDict kvs') t" for t
    unfolding deep_transform.simps(8) s m by (rule refl)
  then have r: "repr_hashable h (VDict kvs) hook = repr_hashable h (VDict kvs') hook"
    by (simp add: repr_hashable_def)
  then have g: "hash_global rec h e f hook (VDict kvs) c = hash_global rec h e f hook (VDict kvs') c"
    by (simp add: hash_global_generic)
  from sorted_py_sorted [OF assms(4), of "map fst kvs"] assms(1)
  have "\<exists>ks. sorted_py (map fst kvs) = Inr ks
                 \<and> sorted_wrt (\<lambda>a b. py_less a b = Some True) ks \<and> set ks = fst ` set kvs"
    by simp
  with r g show ?thesis by blast
qed

theorem dict_serialized_in_key_order_witness:
  "repr_hashable example_host (VDict [(VStr ''b'', VInt 2), (VStr ''a'', VInt 1)]) None =
   repr_hashable example_host (VDict [(VStr ''a'', VInt 1), (VStr ''b'', VInt 2)]) None"
proof -
  have d: "distinct (map fst [(VStr ''b'', VInt 2), (VStr ''a'', VInt 1)])"
    and d': "distinct (map fst [(VStr ''a'', VInt 1), (VStr ''b'', VInt 2)])"
    by simp_all
  have s: "set [(VStr ''b'', VInt 2), (VStr ''a'', VInt 1)] =
           set [(VStr ''a'', VInt 1), (VStr ''b'', VInt 2)]"
    by auto
  have m: "mutually_comparable (fst ` set [(VStr ''b'', VInt 2), (VStr ''a'', VInt 1)])"
    by (simp add: mutually_comparable_def py_less.simps(1))
  from dict_serialized_in_key_order [OF d d' s m] show ?thesis by blast
qed

section \<open>The hook and the dependencies of dependencies\<close>

text \<open>
  Claim C10. \<^verbatim>\<open>hashed_globals_of\<close> calls \<^verbatim>\<open>hash_function(obj)\<close> without the hook. Let
  \<open>f\<close>, not in the cache, be called with a hook, and let its dependency \<open>g\<close> be a function
  of kind 3, not in the cache when the loop of \<open>f\<close> reaches it; let \<open>g\<close> depend on a generic
  value \<open>v\<close> that cannot be hashed without a hook and that the hook accepts. If the source
  of both functions normalizes, all their names are bound, and the dependencies before
  \<open>g\<close> in \<open>f\<close> and before \<open>v\<close> in \<open>g\<close> are hashed without failure, then the call raises
  \<^verbatim>\<open>CodehashError\<close>, naming \<open>f\<close> and its dependency \<open>g\<close>.
\<close>

theorem hook_not_passed_to_dependencies:
  assumes "c f = None" and "ast_code_of h e f = Inr a" and "cv_unbound (getclosurevars e f) = {}"
    and "items_of e f = pre @ (name, VFunc g) # post"
    and "hashed_globals_loop (\<lambda>c' g. hash_function (Suc n) h e c' g None) h e f (Some hook)
           pre [] c = Some (Inr hg, c1)"
    and "g \<noteq> f" and "unversioned_function e g"
    and "c1 g = None" and "ast_code_of h e g = Inr a'" and "cv_unbound (getclosurevars e g) = {}"
    and "items_of e g = pre' @ (y, v) # post'"
    and "hashed_globals_loop (\<lambda>c' g. hash_function n h e c' g None) h e g None pre' [] c1
           = Some (Inr hg', c2)"
    and "module_and_fullname e v = None"
    and "repr_hashable h v None = Inl (CodehashError x)"
    and "repr_hashable h v (Some hook) = Inr t"
  shows "hash_function (Suc (Suc n)) h e c f (Some hook) =
           Some (Inl (CodehashError (CannotHash f name (VFunc g))), c2)"
proof -
  have inner: "hash_function (Suc n) h e c1 g None =
                 Some (Inl (CodehashError (CannotHash g y v)), c2)"
    using assms(8-14)
    by (simp add: hashed_globals_of_items loop_append hash_global_generic)
  show ?thesis
    using assms(1-7) inner
    by (subst hash_function.simps(2))
       (simp add: hashed_globals_of_items loop_append hash_global_unversioned
             del: hash_function.simps(2))
qed

theorem hook_not_passed_to_dependencies_witness:
  "hash_function (Suc (Suc 0)) example_host hook_env Map.empty 0 (Some example_hook) =
     Some (Inl (CodehashError (CannotHash 0 ''g'' (VFunc 1))), Map.empty)"
proof -
  obtain a where a: "ast_code_of example_host hook_env 0 = Inr a"
    by (simp add: hook_env_def example_defs code_defs)
  obtain a' where a': "ast_code_of example_host hook_env 1 = Inr a'"
    by (simp add: hook_env_def example_defs code_defs)
  have u: "cv_unbound (getclosurevars hook_env 0) = {}"
    by (simp add: hook_env_def hook_globals_def example_defs code_defs)
  have u': "cv_unbound (getclosurevars hook_env 1) = {}"
    by (simp add: hook_env_def hook_globals_def example_defs code_defs)
  have i: "items_of hook_env 0 = [] @ (''g'', VFunc 1) # []"
    by (simp add: hook_env_def hook_globals_def example_defs code_defs)
  have i': "items_of hook_env 1 = [] @ (''c'', VObj 7 None) # []"
    by (simp add: hook_env_def hook_globals_def example_defs code_defs)
  have k: "unversioned_function hook_env 1"
    by (simp add: hook_env_def hook_globals_def example_defs code_defs)
  have r: "repr_hashable example_host (VObj 7 None) None =
             Inl (CodehashError (Unknown (VObj 7 None)))"
    by (simp add: example_defs code_defs)
  obtain t where t: "repr_hashable example_host (VObj 7 None) (Some example_hook) = Inr t"
    by (simp add: example_defs code_defs example_hook_def)
  show ?thesis
    by (rule hook_not_passed_to_dependencies [OF _ a u i _ _ k _ a' u' i' _ _ r t]) simp_all
qed

end
